theory Spec2Isabelle
  imports Main
begin

section \<open>Python values\<close>

text \<open>
  A Python \<open>str\<close> is a sequence of Unicode code points, here a list of naturals.
  Literals of the source are written \<open>ustr ''...''\<close>.
\<close>

type_synonym pystr = "nat list"

definition ustr :: "string \<Rightarrow> pystr" where
  "ustr s = map of_char s"

text \<open>
  The values that the form handling and \<open>json\<close> produce. A \<open>dict\<close> keeps its
  insertion order, so it is an association list; all dicts here have \<open>str\<close> keys.
  A float is kept as the literal it was read from: binary floating point is outside
  this development.
\<close>

datatype pyval =
    PyNone
  | PyBool bool
  | PyInt int
  | PyFloat pystr
  | PyStr pystr
  | PyList "pyval list"
  | PyDict "(pystr \<times> pyval) list"

text \<open>\<open>d[k] = v\<close>: replaces the value in place when the key is there, appends otherwise.\<close>

fun dict_setitem :: "(pystr \<times> pyval) list \<Rightarrow> pystr \<Rightarrow> pyval \<Rightarrow> (pystr \<times> pyval) list" where
  "dict_setitem [] k v = [(k, v)]"
| "dict_setitem ((k', v') # d) k v =
     (if k' = k then (k, v) # d else (k', v') # dict_setitem d k v)"

text \<open>\<open>d.keys()\<close> as a set, and \<open>d.get(k)\<close>; both are empty on a value that is no dict.\<close>

fun dict_keys :: "pyval \<Rightarrow> pystr set" where
  "dict_keys (PyDict d) = set (map fst d)"
| "dict_keys _ = {}"

fun dict_get :: "pyval \<Rightarrow> pystr \<Rightarrow> pyval option" where
  "dict_get (PyDict d) k = map_of d k"
| "dict_get _ k = None"

text \<open>\<open>s.split(sep)\<close> for a separator of one character.\<close>

primrec py_split :: "nat \<Rightarrow> pystr \<Rightarrow> pystr list" where
  "py_split sep [] = [[]]"
| "py_split sep (c # cs) =
     (if c = sep then [] # py_split sep cs
      else (case py_split sep cs of [] \<Rightarrow> [[c]] | w # ws \<Rightarrow> (c # w) # ws))"

text \<open>\<open>sep.join(ws)\<close>, the inverse of \<open>split\<close>.\<close>

fun py_join :: "pystr \<Rightarrow> pystr list \<Rightarrow> pystr" where
  "py_join sep [] = []"
| "py_join sep [w] = w"
| "py_join sep (w # ws) = w @ sep @ py_join sep ws"

text \<open>
  \<open>s.strip()\<close>: the code points that \<open>str.isspace\<close> accepts are removed at both ends.
  The source never calls it; it is what "trimmed" means in the specification.
\<close>

definition py_isspace :: "nat \<Rightarrow> bool" where
  "py_isspace c \<longleftrightarrow>
     (0x09 \<le> c \<and> c \<le> 0x0D) \<or> (0x1C \<le> c \<and> c \<le> 0x20) \<or> c = 0x85 \<or> c = 0xA0 \<or>
     c = 0x1680 \<or> (0x2000 \<le> c \<and> c \<le> 0x200A) \<or> c = 0x2028 \<or> c = 0x2029 \<or>
     c = 0x202F \<or> c = 0x205F \<or> c = 0x3000"

definition py_strip :: "pystr \<Rightarrow> pystr" where
  "py_strip s = rev (dropWhile py_isspace (rev (dropWhile py_isspace s)))"


section \<open>The submitted form and the portfolio builder\<close>

text \<open>
  \<open>request.form\<close> is a multi-dict of strings: \<open>get\<close> returns the first value of a
  key, \<open>None\<close> (or the default) when the key is absent.
\<close>

type_synonym form = "(pystr \<times> pystr) list"

definition form_get :: "form \<Rightarrow> pystr \<Rightarrow> pyval" where
  "form_get f k = (case map_of f k of None \<Rightarrow> PyNone | Some v \<Rightarrow> PyStr v)"

definition form_get_default :: "form \<Rightarrow> pystr \<Rightarrow> pystr \<Rightarrow> pystr" where
  "form_get_default f k dflt = (case map_of f k of None \<Rightarrow> dflt | Some v \<Rightarrow> v)"

text \<open>
  The expression of line 207:
  \<^verbatim>\<open>request.form.get('skills').split(',') if request.form.get('skills') else []\<close>.
  \<open>None\<close> and the empty string are false.
\<close>

definition skills_entry :: "form \<Rightarrow> pyval" where
  "skills_entry f =
     (case map_of f (ustr ''skills'') of
        None \<Rightarrow> PyList []
      | Some s \<Rightarrow> if s = [] then PyList [] else PyList (map PyStr (py_split (of_char CHR '','') s)))"

text \<open>The record \<open>data\<close> that the POST branch of \<open>edit_portfolio\<close> assembles (lines 201-220).\<close>

definition build_data :: "form \<Rightarrow> pystr \<Rightarrow> pyval" where
  "build_data f portfolio_type =
     (let data =
        [(ustr ''header'', PyDict [(ustr ''name'', form_get f (ustr ''name'')),
                                   (ustr ''title'', form_get f (ustr ''title''))]),
         (ustr ''about'', PyDict [(ustr ''bio'', form_get f (ustr ''bio''))]),
         (ustr ''projects'', PyList
            [PyDict [(ustr ''name'', form_get f (ustr ''project_name_1'')),
                     (ustr ''desc'', form_get f (ustr ''project_desc_1'')),
                     (ustr ''image'', form_get f (ustr ''project_img_1''))]]),
         (ustr ''skills'', skills_entry f),
         (ustr ''contact'', PyDict [(ustr ''email'', form_get f (ustr ''contact_email'')),
                                    (ustr ''phone'', form_get f (ustr ''contact_phone''))])];
      data1 =
        (if portfolio_type \<in> set [ustr ''Paid'', ustr ''Premium'']
         then dict_setitem data (ustr ''paid_pages'')
                (PyDict [(ustr ''home_content'', form_get f (ustr ''home_content''))])
         else data);
      data2 =
        (if portfolio_type = ustr ''Premium''
         then dict_setitem data1 (ustr ''premium_pages'')
                (PyDict [(ustr ''case_studies'', form_get f (ustr ''case_studies'')),
                         (ustr ''testimonials'', form_get f (ustr ''testimonials'')),
                         (ustr ''resume_link'', form_get f (ustr ''resume_link'')),
                         (ustr ''awards'', form_get f (ustr ''awards''))])
         else data1)
      in PyDict data2)"

text \<open>The skills entry as the specification words it: comma-split, each element trimmed.\<close>

definition skills_spec :: "form \<Rightarrow> pyval" where
  "skills_spec f =
     (case map_of f (ustr ''skills'') of
        None \<Rightarrow> PyList []
      | Some s \<Rightarrow> if s = [] then PyList []
                  else PyList (map (\<lambda>w. PyStr (py_strip w)) (py_split (of_char CHR '','') s)))"


section \<open>The json module: serialisation\<close>

text \<open>
  \<open>json.dumps\<close> with its default arguments: \<open>ensure_ascii=True\<close>, item
  separator \<open>", "\<close>, key separator \<open>": "\<close>.
\<close>

definition hex_digit :: "nat \<Rightarrow> nat" where
  "hex_digit d = (if d < 10 then 0x30 + d else 0x57 + d)"

text \<open>\<open>'{0:04x}'.format(n)\<close> for \<open>n < 0x10000\<close>.\<close>

definition hex4 :: "nat \<Rightarrow> pystr" where
  "hex4 n = [hex_digit (n div 4096 mod 16), hex_digit (n div 256 mod 16),
             hex_digit (n div 16 mod 16), hex_digit (n mod 16)]"

text \<open>
  The replacement of one character by \<open>encode_basestring_ascii\<close>: the short escapes,
  printable ASCII unchanged, \<open>\uXXXX\<close> below \<open>0x10000\<close> and a surrogate pair above.
\<close>

definition escape_char :: "nat \<Rightarrow> pystr" where
  "escape_char c =
     (if c = 0x5C then [0x5C, 0x5C]
      else if c = 0x22 then [0x5C, 0x22]
      else if c = 0x08 then [0x5C, 0x62]
      else if c = 0x0C then [0x5C, 0x66]
      else if c = 0x0A then [0x5C, 0x6E]
      else if c = 0x0D then [0x5C, 0x72]
      else if c = 0x09 then [0x5C, 0x74]
      else if 0x20 \<le> c \<and> c \<le> 0x7E then [c]
      else if c < 0x10000 then [0x5C, 0x75] @ hex4 c
      else [0x5C, 0x75] @ hex4 (0xD800 + (c - 0x10000) div 1024 mod 1024) @
           [0x5C, 0x75] @ hex4 (0xDC00 + (c - 0x10000) mod 1024))"

definition encode_basestring_ascii :: "pystr \<Rightarrow> pystr" where
  "encode_basestring_ascii s = [0x22] @ concat (map escape_char s) @ [0x22]"

text \<open>\<open>int.__repr__\<close>: the decimal digits, with a minus sign below zero.\<close>

fun dec_digits :: "nat \<Rightarrow> pystr" where
  "dec_digits n = (if n < 10 then [0x30 + n] else dec_digits (n div 10) @ [0x30 + n mod 10])"

definition int_repr :: "int \<Rightarrow> pystr" where
  "int_repr i = (if i < 0 then 0x2D # dec_digits (nat (- i)) else dec_digits (nat i))"

fun json_dumps :: "pyval \<Rightarrow> pystr" where
  "json_dumps PyNone = ustr ''null''"
| "json_dumps (PyBool b) = (if b then ustr ''true'' else ustr ''false'')"
| "json_dumps (PyInt i) = int_repr i"
| "json_dumps (PyFloat lit) = lit"
| "json_dumps (PyStr s) = encode_basestring_ascii s"
| "json_dumps (PyList xs) = [0x5B] @ py_join (ustr '', '') (map json_dumps xs) @ [0x5D]"
| "json_dumps (PyDict d) =
     [0x7B] @ py_join (ustr '', '')
        (map (\<lambda>kv. encode_basestring_ascii (fst kv) @ ustr '': '' @ json_dumps (snd kv)) d)
     @ [0x7D]"


section \<open>The json module: parsing\<close>

text \<open>
  \<open>json.loads\<close> as the scanner of the \<open>json\<close> module reads a \<open>str\<close>: a value is
  scanned at the head of the text and returned with the text that follows it; \<open>None\<close> is
  a \<open>JSONDecodeError\<close>.
\<close>

datatype exc = JSONDecodeError | TypeError

definition is_ws :: "nat \<Rightarrow> bool" where
  "is_ws c \<longleftrightarrow> c = 0x20 \<or> c = 0x09 \<or> c = 0x0A \<or> c = 0x0D"

definition skip_ws :: "pystr \<Rightarrow> pystr" where
  "skip_ws cs = dropWhile is_ws cs"

definition is_digit :: "nat \<Rightarrow> bool" where
  "is_digit c \<longleftrightarrow> 0x30 \<le> c \<and> c \<le> 0x39"

definition hex_val :: "nat \<Rightarrow> nat option" where
  "hex_val c =
     (if 0x30 \<le> c \<and> c \<le> 0x39 then Some (c - 0x30)
      else if 0x61 \<le> c \<and> c \<le> 0x66 then Some (c - 0x57)
      else if 0x41 \<le> c \<and> c \<le> 0x46 then Some (c - 0x37)
      else None)"

text \<open>The four hex digits of a \<open>\uXXXX\<close> escape.\<close>

definition hex4_val :: "nat \<Rightarrow> nat \<Rightarrow> nat \<Rightarrow> nat \<Rightarrow> nat option" where
  "hex4_val a b c d =
     (case (hex_val a, hex_val b, hex_val c, hex_val d) of
        (Some x, Some y, Some z, Some w) \<Rightarrow> Some (((x * 16 + y) * 16 + z) * 16 + w)
      | _ \<Rightarrow> None)"

definition is_high_surrogate :: "nat \<Rightarrow> bool" where
  "is_high_surrogate c \<longleftrightarrow> 0xD800 \<le> c \<and> c \<le> 0xDBFF"

definition is_low_surrogate :: "nat \<Rightarrow> bool" where
  "is_low_surrogate c \<longleftrightarrow> 0xDC00 \<le> c \<and> c \<le> 0xDFFF"

definition join_surrogates :: "nat \<Rightarrow> nat \<Rightarrow> nat" where
  "join_surrogates hi lo = 0x10000 + (hi - 0xD800) * 1024 + (lo - 0xDC00)"

text \<open>The character that a short escape stands for.\<close>

definition unescape :: "nat \<Rightarrow> nat option" where
  "unescape c =
     (if c = 0x22 \<or> c = 0x5C \<or> c = 0x2F then Some c
      else if c = 0x62 then Some 0x08
      else if c = 0x66 then Some 0x0C
      else if c = 0x6E then Some 0x0A
      else if c = 0x72 then Some 0x0D
      else if c = 0x74 then Some 0x09
      else None)"

definition str_cons :: "nat \<Rightarrow> (pystr \<times> pystr) option \<Rightarrow> (pystr \<times> pystr) option" where
  "str_cons c r = (case r of None \<Rightarrow> None | Some (s, rest) \<Rightarrow> Some (c # s, rest))"

text \<open>
  \<open>scanstring\<close> (strict): the text after an opening quote, up to the closing quote.
  A control character, an unknown escape and a missing closing quote are errors; a
  high surrogate escape directly followed by a low surrogate escape is one character.
\<close>

fun scanstring :: "pystr \<Rightarrow> (pystr \<times> pystr) option" where
  "scanstring [] = None"
| "scanstring (c # cs) =
     (if c = 0x22 then Some ([], cs)
      else if c = 0x5C then
        (case cs of
           [] \<Rightarrow> None
         | e # cs1 \<Rightarrow>
             if e = 0x75 then
               (case cs1 of
                  h1 # h2 # h3 # h4 # cs2 \<Rightarrow>
                    (case hex4_val h1 h2 h3 h4 of
                       None \<Rightarrow> None
                     | Some u \<Rightarrow>
                         if is_high_surrogate u then
                           (case cs2 of
                              b # u' # l1 # l2 # l3 # l4 # cs3 \<Rightarrow>
                                if b = 0x5C \<and> u' = 0x75 then
                                  (case hex4_val l1 l2 l3 l4 of
                                     None \<Rightarrow> None
                                   | Some u2 \<Rightarrow>
                                       if is_low_surrogate u2
                                       then str_cons (join_surrogates u u2) (scanstring cs3)
                                       else str_cons u (scanstring cs2))
                                else str_cons u (scanstring cs2)
                            | _ \<Rightarrow> str_cons u (scanstring cs2))
                         else str_cons u (scanstring cs2))
                | _ \<Rightarrow> None)
             else
               (case unescape e of
                  None \<Rightarrow> None
                | Some c' \<Rightarrow> str_cons c' (scanstring cs1)))
      else if c \<le> 0x1F then None
      else str_cons c (scanstring cs))"

text \<open>The value of a run of decimal digits.\<close>

definition digits_val :: "pystr \<Rightarrow> nat" where
  "digits_val ds = foldl (\<lambda>n d. 10 * n + (d - 0x30)) 0 ds"

text \<open>
  \<open>_match_number\<close>: an optional minus, then \<open>0\<close> or a run of digits not starting with
  \<open>0\<close>; a fraction when a point and a digit follow; an exponent when \<open>e\<close> or \<open>E\<close>,
  an optional sign and a digit follow. Each part returns its text and what follows it.
  Without fraction and exponent the value is an \<open>int\<close>.
\<close>

definition int_part :: "pystr \<Rightarrow> (pystr \<times> pystr) option" where
  "int_part cs =
     (case cs of
        [] \<Rightarrow> None
      | d # r \<Rightarrow>
          if d = 0x30 then Some ([d], r)
          else if 0x31 \<le> d \<and> d \<le> 0x39 then Some (d # takeWhile is_digit r, dropWhile is_digit r)
          else None)"

definition frac_part :: "pystr \<Rightarrow> pystr \<times> pystr" where
  "frac_part cs =
     (case cs of
        p # f # r \<Rightarrow>
          if p = 0x2E \<and> is_digit f then (p # f # takeWhile is_digit r, dropWhile is_digit r)
          else ([], cs)
      | _ \<Rightarrow> ([], cs))"

definition exp_part :: "pystr \<Rightarrow> pystr \<times> pystr" where
  "exp_part cs =
     (case cs of
        [] \<Rightarrow> ([], cs)
      | e # r \<Rightarrow>
          if e = 0x65 \<or> e = 0x45 then
            let (sg, r') = (case r of
                              [] \<Rightarrow> ([], r)
                            | s # t \<Rightarrow> if s = 0x2D \<or> s = 0x2B then ([s], t) else ([], r))
            in if takeWhile is_digit r' = [] then ([], cs)
               else (e # sg @ takeWhile is_digit r', dropWhile is_digit r')
          else ([], cs))"

definition match_number :: "pystr \<Rightarrow> (pyval \<times> pystr) option" where
  "match_number cs =
     (let (sign, r0) = (case cs of [] \<Rightarrow> ([], cs) | c # r \<Rightarrow> if c = 0x2D then ([c], r) else ([], cs))
      in case int_part r0 of
           None \<Rightarrow> None
         | Some (ds, r1) \<Rightarrow>
             let (frac, r2) = frac_part r1;
                 (ex, r3) = exp_part r2
             in if frac = [] \<and> ex = []
                then Some (PyInt (if sign = [] then int (digits_val ds) else - int (digits_val ds)), r3)
                else Some (PyFloat (sign @ ds @ frac @ ex), r3))"

text \<open>\<open>s.startswith(p)\<close> on the remaining text, returning what follows the prefix.\<close>

fun strip_prefix :: "pystr \<Rightarrow> pystr \<Rightarrow> pystr option" where
  "strip_prefix [] cs = Some cs"
| "strip_prefix (p # ps) [] = None"
| "strip_prefix (p # ps) (c # cs) = (if p = c then strip_prefix ps cs else None)"

text \<open>
  \<open>scan_once\<close> with the loops of \<open>_parse_array\<close> and \<open>_parse_object\<close>. The first
  argument bounds the number of calls; \<open>json_loads\<close> below starts it high enough for the
  text at hand. \<open>parse_array n acc cs\<close> is the loop of \<open>_parse_array\<close> at the start of an
  element, \<open>acc\<close> the elements read so far; \<open>parse_object\<close> is the loop of
  \<open>_parse_object\<close> at the start of a key, storing each pair with \<open>dict_setitem\<close>.
\<close>

fun scan_once :: "nat \<Rightarrow> pystr \<Rightarrow> (pyval \<times> pystr) option"
  and parse_array :: "nat \<Rightarrow> pyval list \<Rightarrow> pystr \<Rightarrow> (pyval \<times> pystr) option"
  and parse_object :: "nat \<Rightarrow> (pystr \<times> pyval) list \<Rightarrow> pystr \<Rightarrow> (pyval \<times> pystr) option"
where
  "scan_once 0 cs = None"
| "scan_once (Suc n) cs =
     (case cs of
        [] \<Rightarrow> None
      | c # r \<Rightarrow>
          if c = 0x22 then
            (case scanstring r of None \<Rightarrow> None | Some (s, r') \<Rightarrow> Some (PyStr s, r'))
          else if c = 0x7B then
            (case skip_ws r of
               [] \<Rightarrow> None
             | c' # r' \<Rightarrow> if c' = 0x7D then Some (PyDict [], r') else parse_object n [] (c' # r'))
          else if c = 0x5B then
            (case skip_ws r of
               [] \<Rightarrow> None
             | c' # r' \<Rightarrow> if c' = 0x5D then Some (PyList [], r') else parse_array n [] (c' # r'))
          else
            (case strip_prefix (ustr ''null'') cs of Some r' \<Rightarrow> Some (PyNone, r')
             | None \<Rightarrow>
            (case strip_prefix (ustr ''true'') cs of Some r' \<Rightarrow> Some (PyBool True, r')
             | None \<Rightarrow>
            (case strip_prefix (ustr ''false'') cs of Some r' \<Rightarrow> Some (PyBool False, r')
             | None \<Rightarrow>
            (case strip_prefix (ustr ''NaN'') cs of Some r' \<Rightarrow> Some (PyFloat (ustr ''NaN''), r')
             | None \<Rightarrow>
            (case strip_prefix (ustr ''Infinity'') cs of
               Some r' \<Rightarrow> Some (PyFloat (ustr ''Infinity''), r')
             | None \<Rightarrow>
            (case strip_prefix (ustr ''-Infinity'') cs of
               Some r' \<Rightarrow> Some (PyFloat (ustr ''-Infinity''), r')
             | None \<Rightarrow> match_number cs)))))))"
| "parse_array 0 acc cs = None"
| "parse_array (Suc n) acc cs =
     (case scan_once n cs of
        None \<Rightarrow> None
      | Some (v, r) \<Rightarrow>
          (case skip_ws r of
             [] \<Rightarrow> None
           | c # r' \<Rightarrow>
               if c = 0x5D then Some (PyList (acc @ [v]), r')
               else if c = 0x2C then parse_array n (acc @ [v]) (skip_ws r')
               else None))"
| "parse_object 0 acc cs = None"
| "parse_object (Suc n) acc cs =
     (case cs of
        [] \<Rightarrow> None
      | q # r0 \<Rightarrow>
          if q \<noteq> 0x22 then None
          else
            (case scanstring r0 of
               None \<Rightarrow> None
             | Some (k, r1) \<Rightarrow>
                 (case skip_ws r1 of
                    [] \<Rightarrow> None
                  | c # r2 \<Rightarrow>
                      if c \<noteq> 0x3A then None
                      else
                        (case scan_once n (skip_ws r2) of
                           None \<Rightarrow> None
                         | Some (v, r3) \<Rightarrow>
                             (case skip_ws r3 of
                                [] \<Rightarrow> None
                              | c' # r4 \<Rightarrow>
                                  if c' = 0x7D then Some (PyDict (dict_setitem acc k v), r4)
                                  else if c' = 0x2C then
                                    parse_object n (dict_setitem acc k v) (skip_ws r4)
                                  else None)))))"

text \<open>
  \<open>json.loads(data)\<close>: a \<open>TypeError\<close> for what is no \<open>str\<close>; leading whitespace is
  skipped, one value is scanned, and only whitespace may follow it. Each call of the
  scanner consumes a character before the next one is made, or is the first of two for
  one character, so twice the length of the text bounds their number: any larger bound
  gives the same result (\<open>json_loads_fuel\<close> below).
\<close>

definition json_loads :: "pyval \<Rightarrow> exc + pyval" where
  "json_loads data =
     (case data of
        PyStr s \<Rightarrow>
          (case scan_once (2 * length s + 2) (skip_ws s) of
             None \<Rightarrow> Inl JSONDecodeError
           | Some (v, r) \<Rightarrow> if skip_ws r = [] then Inr v else Inl JSONDecodeError)
      | _ \<Rightarrow> Inl TypeError)"

text \<open>\<open>parse_json\<close> (lines 63-67): both exceptions are caught and give the empty dict.\<close>

definition parse_json :: "pyval \<Rightarrow> pyval" where
  "parse_json data =
     (case json_loads data of
        Inr v \<Rightarrow> v
      | Inl JSONDecodeError \<Rightarrow> PyDict []
      | Inl TypeError \<Rightarrow> PyDict [])"


section \<open>The database\<close>

text \<open>
  The tables \<open>user\<close> and \<open>portfolio\<close>, each a list of rows in insertion order, with the
  columns that the plan and portfolio routes read or write (the password hash, the
  profile columns and the \<open>post\<close> table are left out). \<open>sections_data\<close> is a nullable
  text column.
\<close>

record user =
  user_id :: nat
  username :: pystr
  email :: pystr
  subscription_type :: pystr

record portfolio =
  portfolio_id :: nat
  portfolio_user_id :: nat
  portfolio_type :: pystr
  sections_data :: "pystr option"

record db =
  users :: "user list"
  portfolios :: "portfolio list"

text \<open>\<open>User.query.get(id)\<close> and \<open>User.query.filter_by(username=...).first()\<close>.\<close>

definition get_user :: "nat \<Rightarrow> db \<Rightarrow> user option" where
  "get_user uid s = find (\<lambda>u. user_id u = uid) (users s)"

definition user_by_name :: "pystr \<Rightarrow> db \<Rightarrow> user option" where
  "user_by_name name s = find (\<lambda>u. username u = name) (users s)"

text \<open>The relationship \<open>user.portfolio\<close> (\<open>uselist=False\<close>): the row with the user's id.\<close>

definition user_portfolio :: "user \<Rightarrow> db \<Rightarrow> portfolio option" where
  "user_portfolio u s = find (\<lambda>p. portfolio_user_id p = user_id u) (portfolios s)"

text \<open>
  \<open>current_user\<close>: the user whose id the session holds, loaded by \<open>load_user\<close>; nobody
  when the session holds no id or the id of no row.
\<close>

definition current_user :: "nat option \<Rightarrow> db \<Rightarrow> user option" where
  "current_user sess s = (case sess of None \<Rightarrow> None | Some uid \<Rightarrow> get_user uid s)"

text \<open>Writing to the attributes of a loaded row updates the row with its primary key.\<close>

definition update_user :: "nat \<Rightarrow> (user \<Rightarrow> user) \<Rightarrow> db \<Rightarrow> db" where
  "update_user uid g s = s\<lparr>users := map (\<lambda>u. if user_id u = uid then g u else u) (users s)\<rparr>"

definition update_portfolio :: "nat \<Rightarrow> (portfolio \<Rightarrow> portfolio) \<Rightarrow> db \<Rightarrow> db" where
  "update_portfolio pid g s =
     s\<lparr>portfolios := map (\<lambda>p. if portfolio_id p = pid then g p else p) (portfolios s)\<rparr>"

text \<open>The integer primary key that the store gives a new row: one more than the largest.\<close>

definition new_id :: "portfolio list \<Rightarrow> nat" where
  "new_id ps = Suc (fold max (map portfolio_id ps) 0)"

text \<open>
  \<open>db.session.commit()\<close> either makes the pending changes of the session durable or
  raises and leaves the store as the last commit left it. The handlers take the outcomes
  of their successive commits as a list (\<open>True\<close>: the commit succeeds); a commit beyond
  the list succeeds. A handler returns the stored state at the end of the request.
\<close>

fun commit_ok :: "bool list \<Rightarrow> bool" where
  "commit_ok [] = True"
| "commit_ok (b # bs) = b"

datatype exn = SQLAlchemyError | AttributeError


section \<open>Responses\<close>

text \<open>
  What a view function returns: a rendered template with its keyword arguments, a
  redirect to an endpoint, the redirect to the login page of \<open>login_required\<close>, or the
  404 of \<open>first_or_404\<close>; and the messages it has flashed, each with its category.
\<close>

datatype tval = TUser user | TPortfolio "portfolio option" | TValue pyval

datatype response =
    Render string "(string \<times> tval) list"
  | Redirect string "(string \<times> pystr) list"
  | LoginRequired
  | NotFound

type_synonym flashes = "(pystr \<times> pystr) list"

type_synonym outcome = "(exn + flashes \<times> response) \<times> db"


section \<open>The routes\<close>

text \<open>\<open>select_plan\<close> (lines 166-181).\<close>

definition select_plan :: "bool list \<Rightarrow> nat option \<Rightarrow> pystr \<Rightarrow> db \<Rightarrow> outcome" where
  "select_plan oks sess plan_type s =
     (case current_user sess s of
        None \<Rightarrow> (Inr ([], LoginRequired), s)
      | Some u \<Rightarrow>
          if plan_type \<notin> set [ustr ''Free'', ustr ''Paid'', ustr ''Premium'']
          then (Inr ([(ustr ''Invalid plan selected.'', ustr ''danger'')],
                     Redirect ''plan_details'' []), s)
          else
            let s1 = update_user (user_id u) (\<lambda>u. u\<lparr>subscription_type := plan_type\<rparr>) s;
                s2 = (case user_portfolio u s1 of
                        Some p \<Rightarrow>
                          update_portfolio (portfolio_id p) (\<lambda>p. p\<lparr>portfolio_type := plan_type\<rparr>) s1
                      | None \<Rightarrow> s1)
            in if commit_ok oks
               then (Inr ([(ustr ''Your plan has been successfully updated to '' @ plan_type @ ustr ''!'',
                            ustr ''success'')],
                          Redirect ''dashboard'' []), s2)
               else (Inl SQLAlchemyError, s))"

text \<open>
  The get-or-create step that both branches of \<open>edit_portfolio\<close> perform (lines 193-196
  and 232-235): the user's portfolio if there is one, otherwise a new row with the given
  type and \<open>'{}'\<close>, added and committed. It returns the portfolio, the stored state and
  the outcomes of the commits still to come.
\<close>

definition get_or_create ::
  "bool list \<Rightarrow> user \<Rightarrow> pystr \<Rightarrow> db \<Rightarrow> (exn + portfolio) \<times> db \<times> bool list" where
  "get_or_create oks u ptype s =
     (case user_portfolio u s of
        Some p \<Rightarrow> (Inr p, s, oks)
      | None \<Rightarrow>
          let p = \<lparr>portfolio_id = new_id (portfolios s), portfolio_user_id = user_id u,
                   portfolio_type = ptype, sections_data = Some (ustr ''{}'')\<rparr>
          in if commit_ok oks
             then (Inr p, s\<lparr>portfolios := portfolios s @ [p]\<rparr>, tl oks)
             else (Inl SQLAlchemyError, s, tl oks))"

text \<open>The POST branch of \<open>edit_portfolio\<close> (lines 189-226).\<close>

definition edit_portfolio_post :: "bool list \<Rightarrow> nat option \<Rightarrow> form \<Rightarrow> db \<Rightarrow> outcome" where
  "edit_portfolio_post oks sess f s =
     (case current_user sess s of
        None \<Rightarrow> (Inr ([], LoginRequired), s)
      | Some u \<Rightarrow>
          let ptype = form_get_default f (ustr ''portfolio_type'') (ustr ''Free'')
          in case get_or_create oks u ptype s of
               (Inl e, s1, oks1) \<Rightarrow> (Inl e, s1)
             | (Inr p, s1, oks1) \<Rightarrow>
                 let data = build_data f ptype;
                     s2 = update_portfolio (portfolio_id p)
                            (\<lambda>p. p\<lparr>portfolio_type := ptype,
                                   sections_data := Some (json_dumps data)\<rparr>) s1
                 in if commit_ok oks1
                    then (Inr ([(ustr ''Portfolio updated successfully!'', ustr ''success'')],
                               Redirect ''public_portfolio'' [(''username'', username u)]), s2)
                    else (Inl SQLAlchemyError, s1))"

text \<open>A nullable text column as a Python value.\<close>

definition text_val :: "pystr option \<Rightarrow> pyval" where
  "text_val t = (case t of None \<Rightarrow> PyNone | Some x \<Rightarrow> PyStr x)"

text \<open>\<open>v.get(k, {})\<close>: only a dict has the method.\<close>

definition py_get :: "pyval \<Rightarrow> pystr \<Rightarrow> exn + pyval" where
  "py_get v k =
     (case v of
        PyDict d \<Rightarrow> (case map_of d k of None \<Rightarrow> Inr (PyDict []) | Some x \<Rightarrow> Inr x)
      | _ \<Rightarrow> Inl AttributeError)"

text \<open>The GET branch of \<open>edit_portfolio\<close> (lines 228-250).\<close>

definition edit_portfolio_get :: "bool list \<Rightarrow> nat option \<Rightarrow> db \<Rightarrow> outcome" where
  "edit_portfolio_get oks sess s =
     (case current_user sess s of
        None \<Rightarrow> (Inr ([], LoginRequired), s)
      | Some u \<Rightarrow>
          let plan = subscription_type u
          in case get_or_create oks u plan s of
               (Inl e, s1, oks1) \<Rightarrow> (Inl e, s1)
             | (Inr p, s1, oks1) \<Rightarrow>
                 let sd = parse_json (text_val (sections_data p))
                 in if plan = ustr ''Free'' then
                      (Inr ([], Render ''edit_free_portfolio.html''
                                 [(''sections_data'', TValue sd), (''portfolio'', TPortfolio (Some p))]), s1)
                    else if plan = ustr ''Paid'' then
                      (case py_get sd (ustr ''paid_pages'') of
                         Inl e \<Rightarrow> (Inl e, s1)
                       | Inr paid \<Rightarrow>
                           (Inr ([], Render ''edit_paid_portfolio.html''
                                      [(''sections_data'', TValue sd),
                                       (''portfolio'', TPortfolio (Some p)),
                                       (''paid_pages'', TValue paid)]), s1))
                    else if plan = ustr ''Premium'' then
                      (case py_get sd (ustr ''paid_pages'') of
                         Inl e \<Rightarrow> (Inl e, s1)
                       | Inr paid \<Rightarrow>
                           (case py_get sd (ustr ''premium_pages'') of
                              Inl e \<Rightarrow> (Inl e, s1)
                            | Inr premium \<Rightarrow>
                                (Inr ([], Render ''edit_premium_portfolio.html''
                                           [(''sections_data'', TValue sd),
                                            (''portfolio'', TPortfolio (Some p)),
                                            (''paid_pages'', TValue paid),
                                            (''premium_pages'', TValue premium)]), s1)))
                    else (Inr ([(ustr ''Please select a plan first.'', ustr ''warning'')],
                               Redirect ''plan_details'' []), s1))"

text \<open>\<open>edit_portfolio\<close> (lines 184-250) on the request method.\<close>

datatype http_method = GET | POST

definition edit_portfolio ::
  "bool list \<Rightarrow> nat option \<Rightarrow> http_method \<Rightarrow> form \<Rightarrow> db \<Rightarrow> outcome" where
  "edit_portfolio oks sess m f s =
     (case m of POST \<Rightarrow> edit_portfolio_post oks sess f s | GET \<Rightarrow> edit_portfolio_get oks sess s)"

text \<open>\<open>public_portfolio\<close> (lines 253-270); it writes nothing.\<close>

definition no_portfolio_page :: "user \<Rightarrow> response" where
  "no_portfolio_page u =
     Render ''public_portfolio.html'' [(''user'', TUser u), (''portfolio'', TPortfolio None)]"

definition public_portfolio :: "pystr \<Rightarrow> db \<Rightarrow> response" where
  "public_portfolio name s =
     (case user_by_name name s of
        None \<Rightarrow> NotFound
      | Some u \<Rightarrow>
          (case user_portfolio u s of
             None \<Rightarrow> no_portfolio_page u
           | Some p \<Rightarrow>
               let sd = parse_json (text_val (sections_data p))
               in if portfolio_type p = ustr ''Free'' then
                    Render ''free_portfolio.html''
                      [(''user'', TUser u), (''portfolio'', TPortfolio (Some p)),
                       (''sections_data'', TValue sd)]
                  else if portfolio_type p = ustr ''Paid'' then
                    Render ''paid_portfolio.html''
                      [(''user'', TUser u), (''portfolio'', TPortfolio (Some p)),
                       (''sections_data'', TValue sd)]
                  else if portfolio_type p = ustr ''Premium'' then
                    Render ''premium_portfolio.html''
                      [(''user'', TUser u), (''portfolio'', TPortfolio (Some p)),
                       (''sections_data'', TValue sd)]
                  else no_portfolio_page u))"


section \<open>The view selection of the specification\<close>

datatype ViewKind = FreeView | PaidView | PremiumView | NoPortfolio

text \<open>
  \<open>selectView\<close> in the specification's words: \<open>NoPortfolio\<close> without a record,
  otherwise by \<open>portfolio_type\<close>, and \<open>NoPortfolio\<close> again for an unrecognised type.
\<close>

definition selectView :: "portfolio option \<Rightarrow> ViewKind" where
  "selectView po =
     (case po of
        None \<Rightarrow> NoPortfolio
      | Some p \<Rightarrow>
          if portfolio_type p = ustr ''Free'' then FreeView
          else if portfolio_type p = ustr ''Paid'' then PaidView
          else if portfolio_type p = ustr ''Premium'' then PremiumView
          else NoPortfolio)"

text \<open>The kind of view that a response of \<open>public_portfolio\<close> presents, by its template.\<close>

definition view_kind :: "response \<Rightarrow> ViewKind option" where
  "view_kind r =
     (case r of
        Render t args \<Rightarrow>
          if t = ''free_portfolio.html'' then Some FreeView
          else if t = ''paid_portfolio.html'' then Some PaidView
          else if t = ''premium_portfolio.html'' then Some PremiumView
          else if t = ''public_portfolio.html'' \<and> map_of args ''portfolio'' = Some (TPortfolio None)
          then Some NoPortfolio
          else None
      | _ \<Rightarrow> None)"


section \<open>Values that the builder can produce\<close>

text \<open>
  A Unicode scalar value: a code point that is no surrogate. The form values that the
  framework decodes from the request consist of these.
\<close>

definition scalar :: "nat \<Rightarrow> bool" where
  "scalar c \<longleftrightarrow> c < 0x110000 \<and> \<not> (0xD800 \<le> c \<and> c \<le> 0xDFFF)"

definition form_ok :: "form \<Rightarrow> bool" where
  "form_ok f \<longleftrightarrow> (\<forall>kv \<in> set f. list_all scalar (snd kv))"

text \<open>
  The values made of \<open>None\<close>, booleans, strings of scalar values, lists, and dicts
  whose keys are distinct strings of scalar values.
\<close>

fun json_plain :: "pyval \<Rightarrow> bool" where
  "json_plain PyNone = True"
| "json_plain (PyBool b) = True"
| "json_plain (PyInt i) = False"
| "json_plain (PyFloat lit) = False"
| "json_plain (PyStr s) = list_all scalar s"
| "json_plain (PyList xs) = list_all json_plain xs"
| "json_plain (PyDict d) =
     (distinct (map fst d) \<and> list_all (\<lambda>kv. list_all scalar (fst kv) \<and> json_plain (snd kv)) d)"


section \<open>Example states\<close>

text \<open>A user on the Free plan, first without a portfolio, then with one.\<close>

definition ann :: user where
  "ann = \<lparr>user_id = 1, username = ustr ''ann'', email = ustr ''a@x.com'',
          subscription_type = ustr ''Free''\<rparr>"

definition db_new :: db where
  "db_new = \<lparr>users = [ann], portfolios = []\<rparr>"

definition db_free :: db where
  "db_free = \<lparr>users = [ann],
              portfolios = [\<lparr>portfolio_id = 1, portfolio_user_id = 1,
                             portfolio_type = ustr ''Free'', sections_data = Some (ustr ''{}'')\<rparr>]\<rparr>"

text \<open>The same user with a portfolio saved under Premium.\<close>

definition db_premium :: db where
  "db_premium = \<lparr>users = [ann],
     portfolios = [\<lparr>portfolio_id = 1, portfolio_user_id = 1, portfolio_type = ustr ''Premium'',
       sections_data = Some (json_dumps (build_data [(ustr ''home_content'', ustr ''Welcome'')]
                                            (ustr ''Premium'')))\<rparr>]\<rparr>"




section \<open>Properties of the builder\<close>

lemma dict_setitem_keys: "set (map fst (dict_setitem d k v)) = insert k (set (map fst d))"
  by (induction d k v rule: dict_setitem.induct) auto

lemma py_split_not_Nil: "py_split sep s \<noteq> []"
  by (induction s) (auto split: list.splits)

lemma py_join_Cons: "ws \<noteq> [] \<Longrightarrow> py_join sep (w # ws) = w @ sep @ py_join sep ws"
  by (cases ws) auto

lemma py_join_Cons_hd:
  "py_join sep ((c # w) # ws) = c # py_join sep (w # ws)"
  by (cases ws) auto

lemma py_join_split: "py_join [sep] (py_split sep s) = s"
proof (induction s)
  case Nil
  show ?case by simp
next
  case (Cons c cs)
  show ?case
  proof (cases "c = sep")
    case True
    then show ?thesis
      using Cons py_split_not_Nil [of sep cs] by (simp add: py_join_Cons)
  next
    case False
    obtain w ws where ws: "py_split sep cs = w # ws"
      using py_split_not_Nil [of sep cs] by (cases "py_split sep cs") auto
    with False Cons show ?thesis
      by (simp add: py_join_Cons_hd)
  qed
qed

lemma py_split_no_sep: "w \<in> set (py_split sep s) \<Longrightarrow> sep \<notin> set w"
  by (induction s arbitrary: w) (auto split: if_splits list.splits)


section \<open>The keys of the built record\<close>

text \<open>
  C1. For each of the tiers Free, Paid and Premium and every submitted form, the record
  assembled by the POST branch of \<open>edit_portfolio\<close> has exactly the keys header, about,
  projects, skills and contact, plus paid_pages iff the tier is Paid or Premium, plus
  premium_pages iff the tier is Premium.
\<close>

theorem build_data_keys:
  assumes "ptype \<in> {ustr ''Free'', ustr ''Paid'', ustr ''Premium''}"
  shows "dict_keys (build_data f ptype) =
           {ustr ''header'', ustr ''about'', ustr ''projects'', ustr ''skills'', ustr ''contact''}
           \<union> (if ptype = ustr ''Paid'' \<or> ptype = ustr ''Premium''
              then {ustr ''paid_pages''} else {})
           \<union> (if ptype = ustr ''Premium'' then {ustr ''premium_pages''} else {})"
proof -
  from assms consider (free) "ptype = ustr ''Free''"
    | (paid) "ptype = ustr ''Paid''"
    | (premium) "ptype = ustr ''Premium''"
    by auto
  then show ?thesis
  proof cases
    case free
    then show ?thesis by (simp add: build_data_def ustr_def)
  next
    case paid
    then show ?thesis by (simp add: build_data_def ustr_def insert_commute)
  next
    case premium
    then show ?thesis by (simp add: build_data_def ustr_def insert_commute)
  qed
qed

theorem build_data_keys_witness:
  "ustr ''Paid'' \<in> {ustr ''Free'', ustr ''Paid'', ustr ''Premium''} \<and>
   dict_keys (build_data [(ustr ''name'', ustr ''Ann''), (ustr ''home_content'', ustr ''Hi'')]
                (ustr ''Paid'')) =
     {ustr ''header'', ustr ''about'', ustr ''projects'', ustr ''skills'', ustr ''contact'',
      ustr ''paid_pages''}"
proof -
  have h: "ustr ''Paid'' \<in> {ustr ''Free'', ustr ''Paid'', ustr ''Premium''}" by simp
  have ne: "ustr ''Paid'' \<noteq> ustr ''Premium''" by (simp add: ustr_def)
  show ?thesis
    using h ne
      build_data_keys [OF h, of "[(ustr ''name'', ustr ''Ann''), (ustr ''home_content'', ustr ''Hi'')]"]
    by (simp add: insert_commute)
qed


section \<open>The skills entry\<close>

lemma map_of_dict_setitem:
  "map_of (dict_setitem d k v) k' = (if k' = k then Some v else map_of d k')"
  by (induction d k v rule: dict_setitem.induct) auto

lemma dict_get_skills: "dict_get (build_data f t) (ustr ''skills'') = Some (skills_entry f)"
  by (simp add: build_data_def Let_def map_of_dict_setitem ustr_def)

text \<open>
  C4 as stated: the skills entry is the comma-split of the skills field with each element
  trimmed. The source splits and does not trim: the field \<open>go, rust\<close> gives the elements
  \<open>go\<close> and \<open> rust\<close>, the second with its leading blank.
\<close>

theorem skills_not_trimmed_counterexample:
  "dict_get (build_data [(ustr ''skills'', ustr ''go, rust'')] (ustr ''Free'')) (ustr ''skills'')
     = Some (PyList [PyStr (ustr ''go''), PyStr (ustr '' rust'')]) \<and>
   skills_spec [(ustr ''skills'', ustr ''go, rust'')]
     = PyList [PyStr (ustr ''go''), PyStr (ustr ''rust'')] \<and>
   dict_get (build_data [(ustr ''skills'', ustr ''go, rust'')] (ustr ''Free'')) (ustr ''skills'')
     \<noteq> Some (skills_spec [(ustr ''skills'', ustr ''go, rust'')])"
proof -
  have split: "py_split 44 (ustr ''go, rust'') = [ustr ''go'', ustr '' rust'']"
    by (simp add: ustr_def)
  have strip: "py_strip (ustr ''go'') = ustr ''go''" "py_strip (ustr '' rust'') = ustr ''rust''"
    by (simp_all add: py_strip_def py_isspace_def ustr_def)
  have ne: "ustr '' rust'' \<noteq> ustr ''rust''" "ustr ''go, rust'' \<noteq> []"
    by (simp_all add: ustr_def)
  show ?thesis
    unfolding dict_get_skills
    by (simp add: skills_entry_def skills_spec_def split strip ne)
qed

text \<open>
  C4 as amended: the skills entry is the comma-split of the skills field, its elements kept
  as they are (joining them with commas gives the field back, and no element contains a
  comma); it is the empty sequence when the field is absent or empty.
\<close>

theorem skills_entry_split:
  "\<exists>ws. dict_get (build_data f t) (ustr ''skills'') = Some (PyList (map PyStr ws)) \<and>
     (case map_of f (ustr ''skills'') of
        None \<Rightarrow> ws = []
      | Some s \<Rightarrow>
          if s = [] then ws = []
          else ws = py_split (of_char CHR '','') s \<and> py_join [of_char CHR '',''] ws = s \<and>
               (\<forall>w \<in> set ws. of_char CHR '','' \<notin> set w))"
proof (cases "map_of f (ustr ''skills'')")
  case None
  then show ?thesis
    by (simp add: dict_get_skills skills_entry_def)
next
  case (Some s)
  show ?thesis
  proof (cases "s = []")
    case True
    with Some show ?thesis
      by (simp add: dict_get_skills skills_entry_def)
  next
    case False
    with Some show ?thesis
      using py_split_no_sep [of _ "of_char CHR '',''" s]
      by (simp add: dict_get_skills skills_entry_def py_join_split)
  qed
qed

theorem skills_entry_split_witness:
  "\<exists>ws. dict_get (build_data [(ustr ''skills'', ustr ''go,rust'')] (ustr ''Free'')) (ustr ''skills'')
          = Some (PyList (map PyStr ws)) \<and>
        ws = [ustr ''go'', ustr ''rust''] \<and> py_join [of_char CHR '',''] ws = ustr ''go,rust'' \<and>
        (\<forall>w \<in> set ws. of_char CHR '','' \<notin> set w)"
  using skills_entry_split [of "[(ustr ''skills'', ustr ''go,rust'')]" "ustr ''Free''"]
  by (simp add: ustr_def)


section \<open>Rows and lookups\<close>

lemma find_map_upd:
  assumes "find P xs = Some x" and "\<And>y. P (g y) = P y"
  shows "find P (map (\<lambda>y. if Q y then g y else y) xs) = Some (if Q x then g x else x)"
  using assms(1)
proof (induction xs)
  case Nil
  then show ?case by simp
next
  case (Cons a xs)
  then show ?case using assms(2) by (auto split: if_splits)
qed

lemma find_map_upd_None:
  assumes "find P xs = None" and "\<And>y. P (g y) = P y"
  shows "find P (map (\<lambda>y. if Q y then g y else y) xs) = None"
  using assms by (induction xs) (auto split: if_splits)

lemma find_snoc_None: "find P xs = None \<Longrightarrow> find P (xs @ [x]) = (if P x then Some x else None)"
  by (induction xs) (auto split: if_splits)

lemma find_Some_P: "find P xs = Some x \<Longrightarrow> P x"
  by (induction xs) (auto split: if_splits)

lemma get_user_id: "get_user uid s = Some u \<Longrightarrow> user_id u = uid"
  unfolding get_user_def by (drule find_Some_P) simp

lemma current_user_id: "current_user sess s = Some u \<Longrightarrow> sess = Some (user_id u)"
  by (auto simp: current_user_def dest: get_user_id split: option.splits)

lemma user_portfolio_update_user [simp]:
  "user_portfolio u (update_user uid g s) = user_portfolio u s"
  by (simp add: user_portfolio_def update_user_def)

lemma user_portfolio_update_portfolio:
  assumes "user_portfolio u s = Some p" and "\<And>q. portfolio_user_id (g q) = portfolio_user_id q"
  shows "user_portfolio u (update_portfolio pid g s) = Some (if portfolio_id p = pid then g p else p)"
  using assms unfolding user_portfolio_def update_portfolio_def
  by (simp add: find_map_upd [where P = "\<lambda>p. portfolio_user_id p = user_id u"])

lemma current_user_update_portfolio [simp]:
  "current_user sess (update_portfolio pid g s) = current_user sess s"
  by (simp add: current_user_def get_user_def update_portfolio_def split: option.splits)

lemma current_user_update_user:
  assumes "current_user sess s = Some u" and "\<And>v. user_id (g v) = user_id v"
  shows "current_user sess (update_user uid g s) = Some (if user_id u = uid then g u else u)"
proof -
  from assms(1) obtain i where i: "sess = Some i" "find (\<lambda>u. user_id u = i) (users s) = Some u"
    by (auto simp: current_user_def get_user_def split: option.splits)
  show ?thesis
    using i assms(2)
    by (simp add: current_user_def get_user_def update_user_def
        find_map_upd [where P = "\<lambda>u. user_id u = i"])
qed


section \<open>The public view\<close>

text \<open>
  C8. For a user that exists, the view that \<open>public_portfolio\<close> selects is the one of the
  specification: the no-portfolio page when the user has no portfolio record, otherwise
  the Free, Paid or Premium view by \<open>portfolio_type\<close>, and for any other
  \<open>portfolio_type\<close> the very response of the no-portfolio case. The function is total:
  every stored state gives a response.
\<close>

theorem public_portfolio_selects_view:
  assumes "user_by_name name s = Some u"
  shows "view_kind (public_portfolio name s) = Some (selectView (user_portfolio u s)) \<and>
         (user_portfolio u s = None \<longrightarrow> public_portfolio name s = no_portfolio_page u) \<and>
         (\<forall>p. user_portfolio u s = Some p \<and>
              portfolio_type p \<notin> {ustr ''Free'', ustr ''Paid'', ustr ''Premium''} \<longrightarrow>
              public_portfolio name s = no_portfolio_page u) \<and>
         (\<forall>p. user_portfolio u s = Some p \<and>
              portfolio_type p \<in> {ustr ''Free'', ustr ''Paid'', ustr ''Premium''} \<longrightarrow>
              view_kind (public_portfolio name s) \<noteq> Some NoPortfolio \<and>
              map_of (case public_portfolio name s of Render t args \<Rightarrow> args | _ \<Rightarrow> [])
                ''portfolio'' = Some (TPortfolio (Some p)))"
proof (cases "user_portfolio u s")
  case None
  with assms show ?thesis
    by (simp add: public_portfolio_def selectView_def view_kind_def no_portfolio_page_def)
next
  case (Some p)
  have ne: "ustr ''Free'' \<noteq> ustr ''Paid''" "ustr ''Free'' \<noteq> ustr ''Premium''"
    "ustr ''Paid'' \<noteq> ustr ''Premium''"
    by (simp_all add: ustr_def)
  from assms Some ne show ?thesis
    by (simp add: public_portfolio_def selectView_def view_kind_def no_portfolio_page_def Let_def)
qed

theorem public_portfolio_selects_view_witness:
  "user_by_name (ustr ''ann'') db_free = Some ann \<and>
   view_kind (public_portfolio (ustr ''ann'') db_free) = Some FreeView \<and>
   user_by_name (ustr ''ann'') db_new = Some ann \<and>
   public_portfolio (ustr ''ann'') db_new = no_portfolio_page ann"
proof -
  have a: "user_by_name (ustr ''ann'') db_free = Some ann"
    by (simp add: user_by_name_def db_free_def ann_def)
  have b: "user_by_name (ustr ''ann'') db_new = Some ann"
    by (simp add: user_by_name_def db_new_def ann_def)
  have c: "user_portfolio ann db_new = None"
    by (simp add: user_portfolio_def db_new_def)
  have d: "selectView (user_portfolio ann db_free) = FreeView"
    by (simp add: user_portfolio_def db_free_def ann_def selectView_def)
  show ?thesis
    using public_portfolio_selects_view [OF a] public_portfolio_selects_view [OF b] a b c d
    by simp
qed


section \<open>Plan selection\<close>

lemma select_plan_rejects:
  assumes "current_user sess s = Some u"
    and "plan_type \<notin> {ustr ''Free'', ustr ''Paid'', ustr ''Premium''}"
  shows "select_plan oks sess plan_type s =
           (Inr ([(ustr ''Invalid plan selected.'', ustr ''danger'')], Redirect ''plan_details'' []), s)"
  using assms by (simp add: select_plan_def)

text \<open>
  C10. When a user who owns a portfolio selects a valid plan and the commit succeeds,
  the portfolio's \<open>portfolio_type\<close> is set to the same value as the user's
  \<open>subscription_type\<close>: afterwards both are the selected plan.
\<close>

theorem select_plan_syncs_portfolio:
  assumes "current_user sess s = Some u"
    and "plan_type \<in> {ustr ''Free'', ustr ''Paid'', ustr ''Premium''}"
    and "user_portfolio u s = Some p"
    and "commit_ok oks"
  shows "\<exists>fl s' u' p'. select_plan oks sess plan_type s = (Inr (fl, Redirect ''dashboard'' []), s') \<and>
           current_user sess s' = Some u' \<and> user_portfolio u' s' = Some p' \<and>
           subscription_type u' = plan_type \<and> portfolio_type p' = plan_type \<and>
           portfolio_type p' = subscription_type u'"
proof -
  let ?s1 = "update_user (user_id u) (\<lambda>u. u\<lparr>subscription_type := plan_type\<rparr>) s"
  let ?s2 = "update_portfolio (portfolio_id p) (\<lambda>p. p\<lparr>portfolio_type := plan_type\<rparr>) ?s1"
  let ?u' = "u\<lparr>subscription_type := plan_type\<rparr>"
  let ?p' = "p\<lparr>portfolio_type := plan_type\<rparr>"
  have p1: "user_portfolio u ?s1 = Some p"
    using assms(3) by simp
  have res: "select_plan oks sess plan_type s =
      (Inr ([(ustr ''Your plan has been successfully updated to '' @ plan_type @ ustr ''!'',
              ustr ''success'')], Redirect ''dashboard'' []), ?s2)"
    using assms p1 by (simp add: select_plan_def Let_def)
  have cu: "current_user sess ?s2 = Some ?u'"
    using current_user_update_user [OF assms(1), of "\<lambda>u. u\<lparr>subscription_type := plan_type\<rparr>" "user_id u"]
    by simp
  have "user_portfolio u ?s2 = Some ?p'"
    using user_portfolio_update_portfolio [OF p1, of "\<lambda>p. p\<lparr>portfolio_type := plan_type\<rparr>" "portfolio_id p"]
    by simp
  then have up: "user_portfolio ?u' ?s2 = Some ?p'"
    by (simp add: user_portfolio_def)
  from res cu up show ?thesis by simp
qed

theorem select_plan_syncs_portfolio_witness:
  "current_user (Some 1) db_free = Some ann \<and>
   ustr ''Premium'' \<in> {ustr ''Free'', ustr ''Paid'', ustr ''Premium''} \<and>
   user_portfolio ann db_free \<noteq> None \<and> commit_ok [] \<and>
   (\<exists>fl s' u' p'. select_plan [] (Some 1) (ustr ''Premium'') db_free
        = (Inr (fl, Redirect ''dashboard'' []), s') \<and>
      current_user (Some 1) s' = Some u' \<and> user_portfolio u' s' = Some p' \<and>
      subscription_type u' = ustr ''Premium'' \<and> portfolio_type p' = ustr ''Premium'')"
proof -
  have a: "current_user (Some 1) db_free = Some ann"
    by (simp add: current_user_def get_user_def db_free_def ann_def)
  have b: "ustr ''Premium'' \<in> {ustr ''Free'', ustr ''Paid'', ustr ''Premium''}" by simp
  have c: "user_portfolio ann db_free = Some \<lparr>portfolio_id = 1, portfolio_user_id = 1,
      portfolio_type = ustr ''Free'', sections_data = Some (ustr ''{}'')\<rparr>"
    by (simp add: user_portfolio_def db_free_def ann_def)
  have d: "commit_ok []" by simp
  show ?thesis
    using select_plan_syncs_portfolio [OF a b c d] a b c d by auto
qed


section \<open>Get-or-create\<close>

lemma get_or_create_cases:
  "get_or_create oks u ptype s =
     (case user_portfolio u s of
        Some p \<Rightarrow> (Inr p, s, oks)
      | None \<Rightarrow>
          if commit_ok oks
          then (Inr \<lparr>portfolio_id = new_id (portfolios s), portfolio_user_id = user_id u,
                      portfolio_type = ptype, sections_data = Some (ustr ''{}'')\<rparr>,
                s\<lparr>portfolios := portfolios s @
                     [\<lparr>portfolio_id = new_id (portfolios s), portfolio_user_id = user_id u,
                       portfolio_type = ptype, sections_data = Some (ustr ''{}'')\<rparr>]\<rparr>, tl oks)
          else (Inl SQLAlchemyError, s, tl oks))"
  by (simp add: get_or_create_def Let_def split: option.splits)

lemma get_or_create_found:
  assumes "get_or_create oks u ptype s = (Inr p, s1, oks1)"
  shows "user_portfolio u s1 = Some p"
proof (cases "user_portfolio u s")
  case None
  with assms have "s1 = s\<lparr>portfolios := portfolios s @ [p]\<rparr>" "portfolio_user_id p = user_id u"
    by (auto simp: get_or_create_cases split: if_splits)
  with None show ?thesis
    by (simp add: user_portfolio_def find_snoc_None)
next
  case (Some q)
  with assms show ?thesis by (simp add: get_or_create_cases)
qed

text \<open>
  C9. Two successive get-or-create accesses for a user, with no save in between, return
  the same portfolio record (so the same id), and the second one inserts nothing: it
  leaves the stored state as it is and attempts no commit.
\<close>

theorem get_or_create_idempotent:
  assumes "get_or_create oks u ptype s = (Inr p, s', oks')"
  shows "\<exists>p2. get_or_create oks2 u ptype2 s' = (Inr p2, s', oks2) \<and>
           portfolio_id p2 = portfolio_id p \<and> p2 = p"
  using get_or_create_found [OF assms] by (simp add: get_or_create_cases)

theorem get_or_create_idempotent_witness:
  "(\<exists>p s'. get_or_create [] ann (ustr ''Free'') db_new = (Inr p, s', []) \<and>
      portfolios db_new = [] \<and> portfolios s' = [p] \<and>
      get_or_create [] ann (ustr ''Paid'') s' = (Inr p, s', []))"
proof -
  have a: "get_or_create [] ann (ustr ''Free'') db_new =
      (Inr \<lparr>portfolio_id = 1, portfolio_user_id = 1, portfolio_type = ustr ''Free'',
             sections_data = Some (ustr ''{}'')\<rparr>,
       db_new\<lparr>portfolios := [\<lparr>portfolio_id = 1, portfolio_user_id = 1,
             portfolio_type = ustr ''Free'', sections_data = Some (ustr ''{}'')\<rparr>]\<rparr>, [])"
    by (simp add: get_or_create_cases user_portfolio_def db_new_def ann_def new_id_def)
  show ?thesis
    using get_or_create_idempotent [OF a, of "[]" "ustr ''Paid''"] a
    by (simp add: db_new_def)
qed


section \<open>Strings survive the round trip\<close>

lemma hex_val_hex_digit: "d < 16 \<Longrightarrow> hex_val (hex_digit d) = Some d"
  by (auto simp: hex_val_def hex_digit_def)

lemma hex_digits_sum:
  "((n div 4096 * 16 + n div 256 mod 16) * 16 + n div 16 mod 16) * 16 + n mod 16 = (n::nat)"
proof -
  have a: "n div 256 = n div 16 div 16" and b: "n div 4096 = n div 16 div 16 div 16"
    by (simp_all add: div_mult2_eq)
  have "n div 16 div 16 div 16 * 16 + n div 16 div 16 mod 16 = n div 16 div 16"
    by (rule div_mult_mod_eq)
  moreover have "n div 16 div 16 * 16 + n div 16 mod 16 = n div 16"
    by (rule div_mult_mod_eq)
  moreover have "n div 16 * 16 + n mod 16 = n"
    by (rule div_mult_mod_eq)
  ultimately show ?thesis
    unfolding a b by simp
qed

lemma hex4_val_hex4:
  assumes "n < 65536"
  shows "hex4_val (hex_digit (n div 4096 mod 16)) (hex_digit (n div 256 mod 16))
           (hex_digit (n div 16 mod 16)) (hex_digit (n mod 16)) = Some n"
proof -
  have "n div 4096 < 16"
    using assms by (intro less_mult_imp_div_less) simp
  then have m: "n div 4096 mod 16 = n div 4096"
    by simp
  have v: "hex4_val (hex_digit (n div 4096 mod 16)) (hex_digit (n div 256 mod 16))
           (hex_digit (n div 16 mod 16)) (hex_digit (n mod 16)) =
      Some (((n div 4096 mod 16 * 16 + n div 256 mod 16) * 16 + n div 16 mod 16) * 16 + n mod 16)"
    unfolding hex4_val_def by (simp add: hex_val_hex_digit)
  show ?thesis
    unfolding v by (simp only: m hex_digits_sum)
qed

lemma scanstring_quote: "scanstring (0x22 # cs) = Some ([], cs)"
  by simp

lemma scanstring_plain:
  "c \<noteq> 0x22 \<Longrightarrow> c \<noteq> 0x5C \<Longrightarrow> \<not> c \<le> 0x1F \<Longrightarrow> scanstring (c # cs) = str_cons c (scanstring cs)"
  by simp

lemma scanstring_short:
  "unescape e = Some c' \<Longrightarrow> e \<noteq> 0x75 \<Longrightarrow>
   scanstring (0x5C # e # cs) = str_cons c' (scanstring cs)"
  by simp

lemma scanstring_u:
  "hex4_val a b c d = Some u \<Longrightarrow> \<not> is_high_surrogate u \<Longrightarrow>
   scanstring (0x5C # 0x75 # a # b # c # d # cs) = str_cons u (scanstring cs)"
  by simp

lemma scanstring_pair:
  "hex4_val a b c d = Some u \<Longrightarrow> is_high_surrogate u \<Longrightarrow>
   hex4_val e f g h = Some u2 \<Longrightarrow> is_low_surrogate u2 \<Longrightarrow>
   scanstring (0x5C # 0x75 # a # b # c # d # 0x5C # 0x75 # e # f # g # h # cs) =
     str_cons (join_surrogates u u2) (scanstring cs)"
  by simp

lemma scanstring_escape_char:
  assumes "scalar c"
  shows "scanstring (escape_char c @ cs) = str_cons c (scanstring cs)"
proof -
  consider (short) "c \<in> {0x5C, 0x22, 0x08, 0x0C, 0x0A, 0x0D, 0x09}"
    | (plain) "c \<notin> {0x5C, 0x22, 0x08, 0x0C, 0x0A, 0x0D, 0x09}" "0x20 \<le> c" "c \<le> 0x7E"
    | (bmp) "c \<notin> {0x5C, 0x22, 0x08, 0x0C, 0x0A, 0x0D, 0x09}" "\<not> (0x20 \<le> c \<and> c \<le> 0x7E)" "c < 0x10000"
    | (astral) "0x10000 \<le> c"
    by fastforce
  then show ?thesis
  proof cases
    case short
    then show ?thesis
      by (auto simp: escape_char_def unescape_def)
  next
    case plain
    then show ?thesis
      by (simp add: escape_char_def scanstring_plain del: scanstring.simps)
  next
    case bmp
    have nh: "\<not> is_high_surrogate c"
      using assms by (auto simp: scalar_def is_high_surrogate_def)
    have e: "escape_char c = [0x5C, 0x75] @ hex4 c"
      using bmp by (auto simp: escape_char_def)
    show ?thesis
      unfolding e hex4_def append_Cons append_Nil
      by (rule scanstring_u [OF hex4_val_hex4 [OF bmp(3)] nh])
  next
    case astral
    define m where "m = c - 0x10000"
    define hi where "hi = 0xD800 + m div 1024 mod 1024"
    define lo where "lo = 0xDC00 + m mod 1024"
    have m: "m < 0x100000" "c = 0x10000 + m"
      using assms astral by (simp_all add: scalar_def m_def)
    have d: "m div 1024 < 1024"
      using m(1) by (intro less_mult_imp_div_less) simp
    have hi3: "hi = 0xD800 + m div 1024"
      using d by (simp add: hi_def)
    have hi: "hi < 65536" "is_high_surrogate hi"
      using d by (simp_all add: hi3 is_high_surrogate_def)
    have r: "m mod 1024 < 1024"
      by simp
    have lo: "lo < 65536" "is_low_surrogate lo"
      using r by (simp_all add: lo_def is_low_surrogate_def)
    have "m div 1024 * 1024 + m mod 1024 = m"
      by (rule div_mult_mod_eq)
    then have j: "join_surrogates hi lo = c"
      using m(2) by (simp add: join_surrogates_def hi3 lo_def)
    have ne: "\<not> (0x20 \<le> c \<and> c \<le> 0x7E)" "\<not> c < 0x10000"
      "c \<notin> {0x5C, 0x22, 0x08, 0x0C, 0x0A, 0x0D, 0x09}"
      using astral by auto
    have e: "escape_char c = [0x5C, 0x75] @ hex4 hi @ [0x5C, 0x75] @ hex4 lo"
      unfolding escape_char_def hi_def lo_def m_def using ne by auto
    have "scanstring ([0x5C, 0x75] @ hex4 hi @ [0x5C, 0x75] @ hex4 lo @ cs) =
        str_cons (join_surrogates hi lo) (scanstring cs)"
      unfolding hex4_def append_Cons append_Nil
      by (rule scanstring_pair [OF hex4_val_hex4 [OF hi(1)] hi(2) hex4_val_hex4 [OF lo(1)] lo(2)])
    then show ?thesis
      unfolding e j by (simp only: append_assoc)
  qed
qed

lemma scanstring_escaped:
  "list_all scalar s \<Longrightarrow>
   scanstring (concat (map escape_char s) @ 0x22 # rest) = Some (s, rest)"
proof (induction s)
  case Nil
  show ?case by simp
next
  case (Cons c s)
  then show ?case
    by (simp add: scanstring_escape_char str_cons_def del: scanstring.simps)
qed

lemma scanstring_encoded:
  "list_all scalar s \<Longrightarrow>
   \<exists>cs. encode_basestring_ascii s @ rest = 0x22 # cs \<and> scanstring cs = Some (s, rest)"
  by (simp add: encode_basestring_ascii_def scanstring_escaped del: scanstring.simps)

section \<open>Values survive the round trip\<close>

lemma skip_ws_Nil [simp]: "skip_ws [] = []"
  by (simp add: skip_ws_def)

lemma skip_ws_nonws: "\<not> is_ws c \<Longrightarrow> skip_ws (c # cs) = c # cs"
  by (simp add: skip_ws_def)

lemma skip_ws_space: "skip_ws (0x20 # cs) = skip_ws cs"
  by (simp add: skip_ws_def is_ws_def)

lemma dict_setitem_fresh: "k \<notin> set (map fst acc) \<Longrightarrow> dict_setitem acc k v = acc @ [(k, v)]"
  by (induction acc k v rule: dict_setitem.induct) auto

text \<open>The first character of a serialised value: never whitespace, never a closing bracket.\<close>

lemma json_dumps_head:
  "json_plain v \<Longrightarrow> \<exists>c cs. json_dumps v = c # cs \<and> c \<in> {0x22, 0x5B, 0x7B, 0x6E, 0x74, 0x66}"
  by (cases v) (auto simp: ustr_def encode_basestring_ascii_def)

lemma skip_ws_head:
  assumes "c \<in> {0x22, 0x5B, 0x7B, 0x6E, 0x74, 0x66::nat}"
  shows "skip_ws (c # cs) = c # cs"
  using assms by (intro skip_ws_nonws) (auto simp: is_ws_def)

lemma skip_ws_json_dumps:
  assumes "json_plain v"
  shows "skip_ws (json_dumps v @ r) = json_dumps v @ r"
proof -
  from json_dumps_head [OF assms] obtain c cs where
    "json_dumps v = c # cs" "c \<in> {0x22, 0x5B, 0x7B, 0x6E, 0x74, 0x66}"
    by blast
  then show ?thesis
    using skip_ws_head [of c "cs @ r"] by simp
qed

lemma scan_once_null: "scan_once (Suc n) (ustr ''null'' @ rest) = Some (PyNone, rest)"
  by (simp add: ustr_def)

lemma scan_once_true: "scan_once (Suc n) (ustr ''true'' @ rest) = Some (PyBool True, rest)"
  by (simp add: ustr_def)

lemma scan_once_false: "scan_once (Suc n) (ustr ''false'' @ rest) = Some (PyBool False, rest)"
  by (simp add: ustr_def)

lemma scan_once_string:
  "list_all scalar s \<Longrightarrow>
   scan_once (Suc n) (encode_basestring_ascii s @ rest) = Some (PyStr s, rest)"
  by (simp add: encode_basestring_ascii_def scanstring_escaped del: scanstring.simps)

lemma scan_once_empty_list: "scan_once (Suc n) (0x5B # 0x5D # rest) = Some (PyList [], rest)"
  by (simp add: skip_ws_nonws is_ws_def)

lemma scan_once_empty_dict: "scan_once (Suc n) (0x7B # 0x7D # rest) = Some (PyDict [], rest)"
  by (simp add: skip_ws_nonws is_ws_def)

lemma scan_once_list:
  assumes "c \<in> {0x22, 0x5B, 0x7B, 0x6E, 0x74, 0x66}"
  shows "scan_once (Suc n) (0x5B # c # cs) = parse_array n [] (c # cs)"
  using assms skip_ws_head [OF assms, of cs] by auto

lemma scan_once_dict:
  assumes "c \<in> {0x22, 0x5B, 0x7B, 0x6E, 0x74, 0x66}"
  shows "scan_once (Suc n) (0x7B # c # cs) = parse_object n [] (c # cs)"
  using assms skip_ws_head [OF assms, of cs] by auto

lemma parse_array_last:
  assumes "scan_once n cs = Some (v, 0x5D # rest)"
  shows "parse_array (Suc n) acc cs = Some (PyList (acc @ [v]), rest)"
  using assms by (simp add: skip_ws_nonws is_ws_def)

lemma parse_array_more:
  assumes "scan_once n cs = Some (v, 0x2C # 0x20 # r)"
  shows "parse_array (Suc n) acc cs = parse_array n (acc @ [v]) (skip_ws r)"
  using assms by (simp add: skip_ws_nonws is_ws_def skip_ws_space)

lemma parse_object_last:
  assumes "scanstring r0 = Some (k, 0x3A # 0x20 # r2)"
    and "scan_once n (skip_ws r2) = Some (v, 0x7D # rest)"
  shows "parse_object (Suc n) acc (0x22 # r0) = Some (PyDict (dict_setitem acc k v), rest)"
  using assms by (simp add: skip_ws_nonws is_ws_def skip_ws_space del: scanstring.simps)

lemma parse_object_more:
  assumes "scanstring r0 = Some (k, 0x3A # 0x20 # r2)"
    and "scan_once n (skip_ws r2) = Some (v, 0x2C # 0x20 # r)"
  shows "parse_object (Suc n) acc (0x22 # r0) = parse_object n (dict_setitem acc k v) (skip_ws r)"
  using assms by (simp add: skip_ws_nonws is_ws_def skip_ws_space del: scanstring.simps)

text \<open>The loop of \<open>_parse_array\<close> on the items of a serialised list.\<close>

lemma parse_array_items:
  assumes elem: "\<And>x n rest. x \<in> set xs \<Longrightarrow> 2 * length (json_dumps x) \<le> n \<Longrightarrow>
                   scan_once n (json_dumps x @ rest) = Some (x, rest)"
    and plain: "list_all json_plain xs"
    and ne: "xs \<noteq> []"
    and fuel: "2 * length (py_join (ustr '', '') (map json_dumps xs)) < n"
  shows "parse_array n acc (py_join (ustr '', '') (map json_dumps xs) @ 0x5D # rest)
           = Some (PyList (acc @ xs), rest)"
  using assms
proof (induction xs arbitrary: n acc)
  case Nil
  then show ?case by simp
next
  case (Cons x xs)
  note prems = Cons.prems and IH = Cons.IH
  from prems(4) obtain m where n: "n = Suc m"
    by (cases n) auto
  show ?case
  proof (cases xs)
    case Nil
    have "2 * length (json_dumps x) \<le> m"
      using prems(4) n Nil by simp
    then have "scan_once m (json_dumps x @ 0x5D # rest) = Some (x, 0x5D # rest)"
      using prems(1) [of x m "0x5D # rest"] by simp
    then show ?thesis
      unfolding n using Nil by (simp add: parse_array_last del: parse_array.simps)
  next
    case (Cons y ys)
    note xs = Cons
    let ?tail = "py_join (ustr '', '') (map json_dumps (y # ys)) @ 0x5D # rest"
    have len: "length (py_join (ustr '', '') (map json_dumps (x # y # ys))) =
        length (json_dumps x) + 2 + length (py_join (ustr '', '') (map json_dumps (y # ys)))"
      by (simp add: ustr_def)
    have fx: "2 * length (json_dumps x) \<le> m"
      and fr: "2 * length (py_join (ustr '', '') (map json_dumps (y # ys))) < m"
      using prems(4) n unfolding xs len by simp_all
    have tx: "py_join (ustr '', '') (map json_dumps (x # y # ys)) @ 0x5D # rest =
        json_dumps x @ 0x2C # 0x20 # ?tail"
      by (simp add: ustr_def)
    have s1: "scan_once m (json_dumps x @ 0x2C # 0x20 # ?tail) = Some (x, 0x2C # 0x20 # ?tail)"
      using prems(1) [of x m "0x2C # 0x20 # ?tail"] fx by simp
    have py: "json_plain y"
      using prems(2) xs by simp
    have sk: "skip_ws ?tail = ?tail"
      using skip_ws_json_dumps [OF py] by (cases ys) (simp_all add: append_assoc)
    have ih: "parse_array m (acc @ [x]) ?tail = Some (PyList ((acc @ [x]) @ y # ys), rest)"
      using IH [where n = m and acc = "acc @ [x]"] prems(1,2) fr unfolding xs
      by simp
    show ?thesis
      unfolding n xs tx parse_array_more [OF s1] sk ih by simp
  qed
qed

text \<open>The loop of \<open>_parse_object\<close> on the members of a serialised dict.\<close>

lemma parse_object_items:
  assumes elem: "\<And>kv n rest. kv \<in> set d \<Longrightarrow> 2 * length (json_dumps (snd kv)) \<le> n \<Longrightarrow>
                   scan_once n (json_dumps (snd kv) @ rest) = Some (snd kv, rest)"
    and plain: "list_all (\<lambda>kv. list_all scalar (fst kv) \<and> json_plain (snd kv)) d"
    and dist: "distinct (map fst acc @ map fst d)"
    and ne: "d \<noteq> []"
    and fuel: "2 * length (py_join (ustr '', '')
                 (map (\<lambda>kv. encode_basestring_ascii (fst kv) @ ustr '': '' @ json_dumps (snd kv)) d)) < n"
  shows "parse_object n acc
           (py_join (ustr '', '')
              (map (\<lambda>kv. encode_basestring_ascii (fst kv) @ ustr '': '' @ json_dumps (snd kv)) d)
            @ 0x7D # rest)
           = Some (PyDict (acc @ d), rest)"
  using assms
proof (induction d arbitrary: n acc)
  case Nil
  then show ?case by simp
next
  case (Cons kv d)
  note prems = Cons.prems and IH = Cons.IH
  let ?mem = "\<lambda>kv. encode_basestring_ascii (fst kv) @ ustr '': '' @ json_dumps (snd kv)"
  obtain k v where kv: "kv = (k, v)" by (cases kv)
  from prems(5) obtain m where n: "n = Suc m"
    by (cases n) auto
  have pk: "list_all scalar k" and pv: "json_plain v"
    using prems(2) kv by simp_all
  have fresh: "k \<notin> set (map fst acc)"
    using prems(3) kv by auto
  have setk: "dict_setitem acc k v = acc @ [(k, v)]"
    using fresh by (rule dict_setitem_fresh)
  have key: "\<And>t. scanstring (concat (map escape_char k) @ 0x22 # 0x3A # 0x20 # t)
      = Some (k, 0x3A # 0x20 # t)"
    using scanstring_escaped [OF pk] by simp
  have memtx: "\<And>t. ?mem kv @ t = 0x22 # (concat (map escape_char k) @ 0x22 # 0x3A # 0x20 # json_dumps v @ t)"
    by (simp add: kv encode_basestring_ascii_def ustr_def)
  have skv: "\<And>t. skip_ws (json_dumps v @ t) = json_dumps v @ t"
    using skip_ws_json_dumps [OF pv] by simp
  have lm: "length (json_dumps v) \<le> length (?mem kv)"
    by (simp add: kv)
  show ?case
  proof (cases d)
    case Nil
    have "2 * length (json_dumps v) \<le> m"
      using prems(5) n Nil lm by simp
    then have s1: "scan_once m (skip_ws (json_dumps v @ 0x7D # rest)) = Some (v, 0x7D # rest)"
      using prems(1) [of kv m "0x7D # rest"] kv skv by simp
    have "parse_object (Suc m) acc
            (0x22 # (concat (map escape_char k) @ 0x22 # 0x3A # 0x20 # json_dumps v @ 0x7D # rest))
          = Some (PyDict (dict_setitem acc k v), rest)"
      by (rule parse_object_last [OF key s1])
    then have "parse_object (Suc m) acc (?mem kv @ 0x7D # rest) = Some (PyDict (acc @ [kv]), rest)"
      unfolding memtx setk by (simp only: kv)
    then show ?thesis
      unfolding n Nil by simp
  next
    case (Cons kv' d')
    note d = Cons
    let ?tail = "py_join (ustr '', '') (map ?mem (kv' # d')) @ 0x7D # rest"
    have len: "length (py_join (ustr '', '') (map ?mem (kv # kv' # d'))) =
        length (?mem kv) + 2 + length (py_join (ustr '', '') (map ?mem (kv' # d')))"
      by (simp add: ustr_def)
    have fx: "2 * length (json_dumps v) \<le> m"
      and fr: "2 * length (py_join (ustr '', '') (map ?mem (kv' # d'))) < m"
      using prems(5) n lm unfolding d len by simp_all
    have tx: "py_join (ustr '', '') (map ?mem (kv # kv' # d')) @ 0x7D # rest =
        ?mem kv @ 0x2C # 0x20 # ?tail"
      by (simp add: ustr_def)
    have s1: "scan_once m (skip_ws (json_dumps v @ 0x2C # 0x20 # ?tail)) = Some (v, 0x2C # 0x20 # ?tail)"
      using prems(1) [of kv m "0x2C # 0x20 # ?tail"] kv skv fx by simp
    have sk: "skip_ws ?tail = ?tail"
      using skip_ws_head [of "0x22"]
      by (cases d') (simp_all add: encode_basestring_ascii_def)
    have d2: "distinct (map fst (acc @ [(k, v)]) @ map fst (kv' # d'))"
      using prems(3) kv d by auto
    have ih: "parse_object m (acc @ [(k, v)]) ?tail = Some (PyDict ((acc @ [(k, v)]) @ kv' # d'), rest)"
      using IH [where n = m and acc = "acc @ [(k, v)]"] prems(1,2) fr d2 unfolding d
      by simp
    have "parse_object (Suc m) acc
            (0x22 # (concat (map escape_char k) @ 0x22 # 0x3A # 0x20 # json_dumps v @ 0x2C # 0x20 # ?tail))
          = Some (PyDict ((acc @ [(k, v)]) @ kv' # d'), rest)"
      unfolding parse_object_more [OF key s1] setk sk by (rule ih)
    then have "parse_object (Suc m) acc (?mem kv @ 0x2C # 0x20 # ?tail)
          = Some (PyDict (acc @ kv # kv' # d'), rest)"
      unfolding memtx by (simp add: kv)
    then show ?thesis
      unfolding n d tx by simp
  qed
qed

text \<open>Scanning the serialisation of a value gives the value and the text after it.\<close>

lemma scan_once_json_dumps:
  "json_plain v \<Longrightarrow> 2 * length (json_dumps v) \<le> n \<Longrightarrow>
   scan_once n (json_dumps v @ rest) = Some (v, rest)"
proof (induction v arbitrary: n rest rule: json_dumps.induct)
  case 1
  then obtain m where "n = Suc m" by (cases n) (auto simp: ustr_def)
  then show ?case by (simp add: scan_once_null del: scan_once.simps)
next
  case (2 b)
  then obtain m where "n = Suc m" by (cases n; cases b) (auto simp: ustr_def)
  then show ?case by (simp add: scan_once_true scan_once_false del: scan_once.simps)
next
  case (3 i)
  then show ?case by simp
next
  case (4 lit)
  then show ?case by simp
next
  case (5 s)
  then obtain m where "n = Suc m" by (cases n) (auto simp: encode_basestring_ascii_def)
  with 5 show ?case by (simp add: scan_once_string del: scan_once.simps)
next
  case (6 xs)
  from 6(3) obtain m where n: "n = Suc m" by (cases n) auto
  show ?case
  proof (cases xs)
    case Nil
    then show ?thesis
      unfolding n by (simp add: scan_once_empty_list del: scan_once.simps)
  next
    case (Cons y ys)
    let ?items = "py_join (ustr '', '') (map json_dumps xs)"
    have py: "json_plain y" and pl: "list_all json_plain xs"
      using 6(2) Cons by simp_all
    from json_dumps_head [OF py] obtain c cs where
      h: "json_dumps y = c # cs" "c \<in> {0x22, 0x5B, 0x7B, 0x6E, 0x74, 0x66}"
      by blast
    obtain cs' where it: "?items @ 0x5D # rest = c # cs'"
      using h(1) Cons by (cases ys) simp_all
    have fuel: "2 * length ?items < m"
      using 6(3) n by simp
    have elem: "\<And>x n rest. x \<in> set xs \<Longrightarrow> 2 * length (json_dumps x) \<le> n \<Longrightarrow>
        scan_once n (json_dumps x @ rest) = Some (x, rest)"
      using 6(1) pl by (simp add: list_all_iff)
    have "parse_array m [] (?items @ 0x5D # rest) = Some (PyList ([] @ xs), rest)"
    proof (rule parse_array_items [OF elem pl _ fuel])
      show "xs \<noteq> []" using Cons by simp
    qed
    then have "scan_once (Suc m) (0x5B # ?items @ 0x5D # rest) = Some (PyList xs, rest)"
      unfolding it scan_once_list [OF h(2)] by simp
    then show ?thesis
      unfolding n by simp
  qed
next
  case (7 d)
  from 7(3) obtain m where n: "n = Suc m" by (cases n) auto
  let ?mem = "\<lambda>kv. encode_basestring_ascii (fst kv) @ ustr '': '' @ json_dumps (snd kv)"
  show ?case
  proof (cases d)
    case Nil
    then show ?thesis
      unfolding n by (simp add: scan_once_empty_dict del: scan_once.simps)
  next
    case (Cons kv d')
    let ?items = "py_join (ustr '', '') (map ?mem d)"
    have pl: "list_all (\<lambda>kv. list_all scalar (fst kv) \<and> json_plain (snd kv)) d"
      and dist: "distinct (map fst [] @ map fst d)"
      using 7(2) by simp_all
    obtain cs' where it: "?items @ 0x7D # rest = 0x22 # cs'"
      using Cons by (cases d') (simp_all add: encode_basestring_ascii_def)
    have fuel: "2 * length ?items < m"
      using 7(3) n by simp
    have elem: "\<And>kv n rest. kv \<in> set d \<Longrightarrow> 2 * length (json_dumps (snd kv)) \<le> n \<Longrightarrow>
        scan_once n (json_dumps (snd kv) @ rest) = Some (snd kv, rest)"
      using 7(1) pl by (simp add: list_all_iff)
    have "parse_object m [] (?items @ 0x7D # rest) = Some (PyDict ([] @ d), rest)"
    proof (rule parse_object_items [OF elem pl dist _ fuel])
      show "d \<noteq> []" using Cons by simp
    qed
    then have "scan_once (Suc m) (0x7B # ?items @ 0x7D # rest) = Some (PyDict d, rest)"
      unfolding it by (subst scan_once_dict) simp_all
    then show ?thesis
      unfolding n by simp
  qed
qed

text \<open>\<open>json.loads(json.dumps(v)) == v\<close>.\<close>

lemma json_loads_json_dumps:
  assumes "json_plain v"
  shows "json_loads (PyStr (json_dumps v)) = Inr v"
proof -
  have "scan_once (2 * length (json_dumps v) + 2) (json_dumps v @ []) = Some (v, [])"
    using assms by (intro scan_once_json_dumps) simp_all
  then show ?thesis
    using skip_ws_json_dumps [OF assms, of "[]"]
    by (simp add: json_loads_def)
qed

lemma parse_json_json_dumps: "json_plain v \<Longrightarrow> parse_json (PyStr (json_dumps v)) = v"
  by (simp add: parse_json_def json_loads_json_dumps)


section \<open>The built record is such a value\<close>

lemma scalar_ascii: "c < 0x80 \<Longrightarrow> scalar c"
  by (simp add: scalar_def)

lemma form_get_plain: "form_ok f \<Longrightarrow> json_plain (form_get f k)"
proof -
  assume ok: "form_ok f"
  show ?thesis
  proof (cases "map_of f k")
    case None
    then show ?thesis by (simp add: form_get_def)
  next
    case (Some v)
    then have "(k, v) \<in> set f" by (rule map_of_SomeD)
    with ok have "list_all scalar v" by (auto simp: form_ok_def)
    with Some show ?thesis by (simp add: form_get_def)
  qed
qed

lemma py_split_all: "list_all P s \<Longrightarrow> list_all (list_all P) (py_split sep s)"
  by (induction s) (auto split: list.splits)

lemma skills_entry_plain: "form_ok f \<Longrightarrow> json_plain (skills_entry f)"
proof -
  assume ok: "form_ok f"
  show ?thesis
  proof (cases "map_of f (ustr ''skills'')")
    case None
    then show ?thesis by (simp add: skills_entry_def)
  next
    case (Some v)
    then have "(ustr ''skills'', v) \<in> set f" by (rule map_of_SomeD)
    with ok have "list_all scalar v" by (auto simp: form_ok_def)
    then have "list_all (list_all scalar) (py_split (of_char CHR '','') v)"
      by (rule py_split_all)
    with Some show ?thesis
      by (simp add: skills_entry_def list_all_iff)
  qed
qed

lemma build_data_plain:
  assumes "form_ok f"
  shows "json_plain (build_data f ptype)"
  using form_get_plain [OF assms] skills_entry_plain [OF assms]
  by (simp add: build_data_def Let_def ustr_def scalar_def)


section \<open>Saving a portfolio\<close>

lemma edit_portfolio_post_unfold:
  assumes "current_user sess s = Some u"
  shows "edit_portfolio_post oks sess f s =
     (case get_or_create oks u (form_get_default f (ustr ''portfolio_type'') (ustr ''Free'')) s of
        (Inl e, s1, oks1) \<Rightarrow> (Inl e, s1)
      | (Inr p, s1, oks1) \<Rightarrow>
          if commit_ok oks1
          then (Inr ([(ustr ''Portfolio updated successfully!'', ustr ''success'')],
                     Redirect ''public_portfolio'' [(''username'', username u)]),
                update_portfolio (portfolio_id p)
                  (\<lambda>p. p\<lparr>portfolio_type := form_get_default f (ustr ''portfolio_type'') (ustr ''Free''),
                         sections_data := Some (json_dumps (build_data f
                           (form_get_default f (ustr ''portfolio_type'') (ustr ''Free''))))\<rparr>) s1)
          else (Inl SQLAlchemyError, s1))"
  using assms by (simp add: edit_portfolio_post_def Let_def split: prod.splits sum.splits)

lemma edit_portfolio_post_saved:
  assumes cu: "current_user sess s = Some u"
    and res: "edit_portfolio_post oks sess f s = (Inr r, s')"
  shows "\<exists>p. user_portfolio u s' =
           Some (p\<lparr>portfolio_type := form_get_default f (ustr ''portfolio_type'') (ustr ''Free''),
                   sections_data := Some (json_dumps (build_data f
                     (form_get_default f (ustr ''portfolio_type'') (ustr ''Free''))))\<rparr>)"
proof -
  let ?pt = "form_get_default f (ustr ''portfolio_type'') (ustr ''Free'')"
  let ?g = "\<lambda>p. p\<lparr>portfolio_type := ?pt, sections_data := Some (json_dumps (build_data f ?pt))\<rparr>"
  obtain x s1 oks1 where g: "get_or_create oks u ?pt s = (x, s1, oks1)"
    by (cases "get_or_create oks u ?pt s") auto
  from res g obtain p where x: "x = Inr p" and s': "s' = update_portfolio (portfolio_id p) ?g s1"
    unfolding edit_portfolio_post_unfold [OF cu]
    by (cases x) (auto split: if_splits)
  have "user_portfolio u s1 = Some p"
    using g x get_or_create_found by simp
  then have "user_portfolio u s' = Some (?g p)"
    unfolding s' using user_portfolio_update_portfolio [of u s1 p ?g "portfolio_id p"] by simp
  then show ?thesis by blast
qed

text \<open>
  C5. After every edit submission that is saved, the user's stored \<open>sections_data\<close> is the
  serialisation of the record built from the submitted form and tier alone: nothing of
  the content stored before enters it, and reading it back with \<open>parse_json\<close> gives that
  record. Under the tier Free the record has neither a \<open>paid_pages\<close> nor a
  \<open>premium_pages\<close> key, whatever was stored before.
\<close>

theorem edit_overwrites_sections_data:
  assumes "current_user sess s = Some u"
    and "edit_portfolio_post oks sess f s = (Inr r, s')"
    and "ptype = form_get_default f (ustr ''portfolio_type'') (ustr ''Free'')"
  shows "\<exists>p. user_portfolio u s' = Some p \<and> portfolio_type p = ptype \<and>
           sections_data p = Some (json_dumps (build_data f ptype)) \<and>
           (form_ok f \<longrightarrow> parse_json (text_val (sections_data p)) = build_data f ptype) \<and>
           (ptype = ustr ''Free'' \<longrightarrow>
              ustr ''paid_pages'' \<notin> dict_keys (build_data f ptype) \<and>
              ustr ''premium_pages'' \<notin> dict_keys (build_data f ptype))"
proof -
  from edit_portfolio_post_saved [OF assms(1,2)] obtain p where
    p: "user_portfolio u s' = Some (p\<lparr>portfolio_type := ptype,
          sections_data := Some (json_dumps (build_data f ptype))\<rparr>)"
    unfolding assms(3) by blast
  have "ustr ''paid_pages'' \<notin> dict_keys (build_data f (ustr ''Free''))"
    "ustr ''premium_pages'' \<notin> dict_keys (build_data f (ustr ''Free''))"
    by (simp_all add: build_data_def ustr_def)
  moreover have "form_ok f \<Longrightarrow> parse_json (PyStr (json_dumps (build_data f ptype))) = build_data f ptype"
    by (rule parse_json_json_dumps [OF build_data_plain])
  ultimately show ?thesis using p by (auto simp: text_val_def)
qed

theorem edit_overwrites_sections_data_witness:
  "current_user (Some 1) db_premium = Some ann \<and> form_ok [(ustr ''name'', ustr ''Ann'')] \<and>
   ustr ''paid_pages'' \<in> dict_keys (build_data [(ustr ''home_content'', ustr ''Welcome'')] (ustr ''Premium'')) \<and>
   (\<exists>r s' p. edit_portfolio_post [] (Some 1) [(ustr ''name'', ustr ''Ann'')] db_premium = (Inr r, s') \<and>
      user_portfolio ann s' = Some p \<and> portfolio_type p = ustr ''Free'' \<and>
      sections_data p = Some (json_dumps (build_data [(ustr ''name'', ustr ''Ann'')] (ustr ''Free''))) \<and>
      parse_json (text_val (sections_data p)) = build_data [(ustr ''name'', ustr ''Ann'')] (ustr ''Free'') \<and>
      ustr ''paid_pages'' \<notin> dict_keys (build_data [(ustr ''name'', ustr ''Ann'')] (ustr ''Free'')) \<and>
      ustr ''premium_pages'' \<notin> dict_keys (build_data [(ustr ''name'', ustr ''Ann'')] (ustr ''Free'')))"
proof -
  have a: "current_user (Some 1) db_premium = Some ann"
    by (simp add: current_user_def get_user_def db_premium_def ann_def)
  have pt: "form_get_default [(ustr ''name'', ustr ''Ann'')] (ustr ''portfolio_type'') (ustr ''Free'')
      = ustr ''Free''"
    by (simp add: form_get_default_def ustr_def)
  have up: "user_portfolio ann db_premium \<noteq> None"
    by (simp add: user_portfolio_def db_premium_def ann_def)
  obtain r s' where b: "edit_portfolio_post [] (Some 1) [(ustr ''name'', ustr ''Ann'')] db_premium = (Inr r, s')"
    using up unfolding edit_portfolio_post_unfold [OF a]
    by (auto simp: get_or_create_cases)
  have k: "ustr ''paid_pages'' \<in> dict_keys (build_data [(ustr ''home_content'', ustr ''Welcome'')] (ustr ''Premium''))"
    by (simp add: build_data_def ustr_def)
  have ok: "form_ok [(ustr ''name'', ustr ''Ann'')]"
    by (simp add: form_ok_def scalar_def ustr_def)
  show ?thesis
    using edit_overwrites_sections_data [OF a b pt [symmetric]] a b k ok by auto
qed

text \<open>
  C2, at the tier \<open>Enterprise\<close>: \<open>select_plan\<close> rejects it and leaves the state as it
  is; the POST branch of \<open>edit_portfolio\<close> makes no such check, stores the tier in
  \<open>portfolio_type\<close> and rewrites \<open>sections_data\<close>.
\<close>

theorem edit_portfolio_stores_invalid_tier:
  "select_plan [] (Some 1) (ustr ''Enterprise'') db_free =
     (Inr ([(ustr ''Invalid plan selected.'', ustr ''danger'')], Redirect ''plan_details'' []), db_free) \<and>
   edit_portfolio_post [] (Some 1) [(ustr ''portfolio_type'', ustr ''Enterprise'')] db_free =
     (Inr ([(ustr ''Portfolio updated successfully!'', ustr ''success'')],
           Redirect ''public_portfolio'' [(''username'', ustr ''ann'')]),
      \<lparr>users = [ann],
       portfolios = [\<lparr>portfolio_id = 1, portfolio_user_id = 1, portfolio_type = ustr ''Enterprise'',
         sections_data = Some (json_dumps (build_data [(ustr ''portfolio_type'', ustr ''Enterprise'')]
                                              (ustr ''Enterprise'')))\<rparr>]\<rparr>) \<and>
   ustr ''Enterprise'' \<notin> {ustr ''Free'', ustr ''Paid'', ustr ''Premium''}"
proof -
  have a: "current_user (Some 1) db_free = Some ann"
    by (simp add: current_user_def get_user_def db_free_def ann_def)
  have ne: "ustr ''Enterprise'' \<notin> {ustr ''Free'', ustr ''Paid'', ustr ''Premium''}"
    by (simp add: ustr_def)
  have pt: "form_get_default [(ustr ''portfolio_type'', ustr ''Enterprise'')] (ustr ''portfolio_type'')
      (ustr ''Free'') = ustr ''Enterprise''"
    by (simp add: form_get_default_def)
  have up: "user_portfolio ann db_free = Some \<lparr>portfolio_id = 1, portfolio_user_id = 1,
      portfolio_type = ustr ''Free'', sections_data = Some (ustr ''{}'')\<rparr>"
    by (simp add: user_portfolio_def db_free_def ann_def)
  have post: "edit_portfolio_post [] (Some 1) [(ustr ''portfolio_type'', ustr ''Enterprise'')] db_free =
     (Inr ([(ustr ''Portfolio updated successfully!'', ustr ''success'')],
           Redirect ''public_portfolio'' [(''username'', ustr ''ann'')]),
      \<lparr>users = [ann],
       portfolios = [\<lparr>portfolio_id = 1, portfolio_user_id = 1, portfolio_type = ustr ''Enterprise'',
         sections_data = Some (json_dumps (build_data [(ustr ''portfolio_type'', ustr ''Enterprise'')]
                                              (ustr ''Enterprise'')))\<rparr>]\<rparr>)"
    unfolding edit_portfolio_post_unfold [OF a] pt
    by (simp add: get_or_create_cases up update_portfolio_def) (simp add: db_free_def ann_def)
  show ?thesis
    using select_plan_rejects [OF a ne, of "[]"] post ne by simp
qed


section \<open>Commits of a save\<close>





section \<open>Decoding stored text\<close>




section \<open>Serialising and decoding the built record\<close>

text \<open>
  C6. For every record that the builder produces from a submitted form, decoding its
  serialised form gives the record back: \<open>parse_json(json.dumps(r)) == r\<close>. The form
  values are strings of Unicode scalar values, as the framework decodes them from the
  request.
\<close>

theorem parse_json_round_trip:
  assumes "form_ok f"
  shows "parse_json (PyStr (json_dumps (build_data f ptype))) = build_data f ptype"
  using build_data_plain [OF assms] by (rule parse_json_json_dumps)

theorem parse_json_round_trip_witness:
  "form_ok [(ustr ''name'', [0x41, 0xE9, 0x1F600, 0x0A, 0x22]), (ustr ''skills'', ustr ''go, rust'')] \<and>
   parse_json (PyStr (json_dumps
      (build_data [(ustr ''name'', [0x41, 0xE9, 0x1F600, 0x0A, 0x22]), (ustr ''skills'', ustr ''go, rust'')]
         (ustr ''Premium'')))) =
     build_data [(ustr ''name'', [0x41, 0xE9, 0x1F600, 0x0A, 0x22]), (ustr ''skills'', ustr ''go, rust'')]
       (ustr ''Premium'')"
proof -
  have ok: "form_ok [(ustr ''name'', [0x41, 0xE9, 0x1F600, 0x0A, 0x22]),
                     (ustr ''skills'', ustr ''go, rust'')]"
    by (simp add: form_ok_def scalar_def ustr_def)
  show ?thesis
    using parse_json_round_trip [OF ok, of "ustr ''Premium''"] ok by simp
qed


section \<open>The bound on the calls of the scanner\<close>


declare scanstring.simps [simp del]

lemma length_skip_ws: "length (skip_ws cs) \<le> length cs"
  by (simp add: skip_ws_def length_dropWhile_le)

lemma skip_ws_Cons_length: "skip_ws r = c # r' \<Longrightarrow> length r' < length r"
  using length_skip_ws [of r] by simp

lemma str_cons_Some:
  "str_cons c x = Some (s, r) \<Longrightarrow> \<exists>s'. x = Some (s', r)"
  by (auto simp: str_cons_def split: option.splits)

text \<open>One step of \<open>scanstring\<close>: an error, the end of the string, or a character and the
  scan of a shorter text.\<close>

lemma scanstring_step:
  "scanstring (c # cs) = None \<or> scanstring (c # cs) = Some ([], cs) \<or>
     (\<exists>x cs'. length cs' \<le> length cs \<and> scanstring (c # cs) = str_cons x (scanstring cs'))"
proof -
  have more: "\<And>x cs'. length cs' \<le> length cs \<Longrightarrow>
      scanstring (c # cs) = str_cons x (scanstring cs') \<Longrightarrow> ?thesis"
    by blast
  show ?thesis
  proof (cases "c = 0x22")
    case True
    then show ?thesis by (simp add: scanstring.simps)
  next
    case q: False
    show ?thesis
    proof (cases "c = 0x5C")
      case False
      show ?thesis
      proof (cases "c \<le> 0x1F")
        case True
        with q False show ?thesis by (simp add: scanstring.simps)
      next
        case c: False
        show ?thesis
          by (rule more [of cs c]) (use q False c in \<open>simp_all add: scanstring.simps\<close>)
      qed
    next
      case True
      show ?thesis
      proof (cases cs)
        case Nil
        with True show ?thesis by (simp add: scanstring.simps)
      next
        case (Cons e cs1)
        show ?thesis
        proof (cases "e = 0x75")
          case False
          show ?thesis
          proof (cases "unescape e")
            case None
            with True Cons False show ?thesis by (simp add: scanstring.simps)
          next
            case (Some c')
            show ?thesis
              by (rule more [of cs1 c']) (use True Cons False Some in \<open>simp_all add: scanstring.simps\<close>)
          qed
        next
          case u: True
          show ?thesis
          proof (cases "\<exists>h1 h2 h3 h4 cs2. cs1 = h1 # h2 # h3 # h4 # cs2")
            case False
            then have "scanstring (c # cs) = None"
              using True Cons u by (auto simp: scanstring.simps split: list.splits)
            then show ?thesis by simp
          next
            case ex: True
            then obtain h1 h2 h3 h4 cs2 where cs1: "cs1 = h1 # h2 # h3 # h4 # cs2" by blast
            show ?thesis
            proof (cases "hex4_val h1 h2 h3 h4")
              case None
              then show ?thesis using True Cons u cs1 by (simp add: scanstring.simps)
            next
              case (Some uu)
              have l2: "length cs2 \<le> length cs"
                using Cons cs1 by simp
              have eq: "scanstring (c # cs) =
                  (if is_high_surrogate uu then
                     (case cs2 of
                        b # u' # l1 # l2 # l3 # l4 # cs3 \<Rightarrow>
                          if b = 0x5C \<and> u' = 0x75 then
                            (case hex4_val l1 l2 l3 l4 of
                               None \<Rightarrow> None
                             | Some u2 \<Rightarrow>
                                 if is_low_surrogate u2
                                 then str_cons (join_surrogates uu u2) (scanstring cs3)
                                 else str_cons uu (scanstring cs2))
                          else str_cons uu (scanstring cs2)
                      | _ \<Rightarrow> str_cons uu (scanstring cs2))
                   else str_cons uu (scanstring cs2))"
                using True Cons u cs1 Some by (simp add: scanstring.simps)
              show ?thesis
              proof (cases "is_high_surrogate uu")
                case False
                with eq have "scanstring (c # cs) = str_cons uu (scanstring cs2)" by simp
                with l2 show ?thesis by (rule more)
              next
                case hs: True
                show ?thesis
                proof (cases "\<exists>b u' l1 l2 l3 l4 cs3. cs2 = b # u' # l1 # l2 # l3 # l4 # cs3")
                  case False
                  with eq hs have "scanstring (c # cs) = str_cons uu (scanstring cs2)"
                    by (auto split: list.splits)
                  with l2 show ?thesis by (rule more)
                next
                  case True
                  then obtain b u' l1 l2 l3 l4 cs3 where
                    cs2: "cs2 = b # u' # l1 # l2 # l3 # l4 # cs3" by blast
                  have l3: "length cs3 \<le> length cs"
                    using l2 cs2 by simp
                  show ?thesis
                  proof (cases "b = 0x5C \<and> u' = 0x75")
                    case False
                    with eq hs cs2 have "scanstring (c # cs) = str_cons uu (scanstring cs2)"
                      by auto
                    with l2 show ?thesis by (rule more)
                  next
                    case bu: True
                    show ?thesis
                    proof (cases "hex4_val l1 l2 l3 l4")
                      case None
                      with eq hs cs2 bu have "scanstring (c # cs) = None" by simp
                      then show ?thesis by simp
                    next
                      case (Some u2)
                      show ?thesis
                      proof (cases "is_low_surrogate u2")
                        case True
                        with eq hs cs2 bu Some
                        have "scanstring (c # cs) = str_cons (join_surrogates uu u2) (scanstring cs3)"
                          by simp
                        with l3 show ?thesis by (rule more)
                      next
                        case False
                        with eq hs cs2 bu Some
                        have "scanstring (c # cs) = str_cons uu (scanstring cs2)"
                          by simp
                        with l2 show ?thesis by (rule more)
                      qed
                    qed
                  qed
                qed
              qed
            qed
          qed
        qed
      qed
    qed
  qed
qed


lemma scanstring_consumes: "scanstring cs = Some (s, r) \<Longrightarrow> length r < length cs"
proof (induction "length cs" arbitrary: cs s r rule: less_induct)
  case less
  show ?case
  proof (cases cs)
    case Nil
    with less.prems show ?thesis by (simp add: scanstring.simps)
  next
    case (Cons c cs0)
    have res: "scanstring (c # cs0) = Some (s, r)"
      using less.prems Cons by simp
    from scanstring_step [of c cs0] show ?thesis
    proof (elim disjE exE conjE)
      assume "scanstring (c # cs0) = None"
      with res show ?thesis by simp
    next
      assume "scanstring (c # cs0) = Some ([], cs0)"
      with res Cons show ?thesis by simp
    next
      fix x cs'
      assume l: "length cs' \<le> length cs0" and e: "scanstring (c # cs0) = str_cons x (scanstring cs')"
      from res e obtain s' where "scanstring cs' = Some (s', r)"
        by (auto dest: str_cons_Some)
      moreover have "length cs' < length cs" using l Cons by simp
      ultimately have "length r < length cs'" by (rule less.hyps [rotated])
      with l Cons show ?thesis by simp
    qed
  qed
qed

lemma strip_prefix_length: "strip_prefix p cs = Some r \<Longrightarrow> length cs = length p + length r"
  by (induction p cs rule: strip_prefix.induct) (auto split: if_splits)

lemma int_part_consumes: "int_part cs = Some (ds, r) \<Longrightarrow> length r < length cs"
  using length_dropWhile_le [of is_digit "tl cs"]
  by (auto simp: int_part_def split: list.splits if_splits)

lemma frac_part_length: "frac_part cs = (f, r) \<Longrightarrow> length r \<le> length cs"
  using length_dropWhile_le [of is_digit "tl (tl cs)"]
  by (auto simp: frac_part_def split: list.splits if_splits)

lemma exp_part_length: "exp_part cs = (e, r) \<Longrightarrow> length r \<le> length cs"
proof (cases cs)
  case Nil
  then show "exp_part cs = (e, r) \<Longrightarrow> length r \<le> length cs"
    by (simp add: exp_part_def)
next
  case (Cons c t)
  assume a: "exp_part cs = (e, r)"
  have 1: "length (dropWhile is_digit t) \<le> length t"
    by (rule length_dropWhile_le)
  have 2: "length (dropWhile is_digit (tl t)) \<le> length t"
    using length_dropWhile_le [of is_digit "tl t"] by simp
  from a Cons 1 2 show "length r \<le> length cs"
    by (auto simp: exp_part_def Let_def split: list.splits if_splits)
qed

lemma match_number_consumes:
  assumes "match_number cs = Some (v, r)"
  shows "length r < length cs"
proof -
  obtain sign r0 where s: "(case cs of [] \<Rightarrow> ([], cs) | c # r \<Rightarrow> if c = 0x2D then ([c], r) else ([], cs))
      = (sign, r0)"
    by (cases "(case cs of [] \<Rightarrow> ([], cs) | c # r \<Rightarrow> if c = 0x2D then ([c], r) else ([], cs))") auto
  then have l0: "length r0 \<le> length cs"
    by (auto split: list.splits if_splits)
  from assms s obtain ds r1 where i: "int_part r0 = Some (ds, r1)"
    by (auto simp: match_number_def split: option.splits)
  obtain frac r2 where f: "frac_part r1 = (frac, r2)" by (cases "frac_part r1")
  obtain ex r3 where e: "exp_part r2 = (ex, r3)" by (cases "exp_part r2")
  from assms s i f e have "r = r3"
    by (auto simp: match_number_def split: if_splits)
  with l0 int_part_consumes [OF i] frac_part_length [OF f] exp_part_length [OF e]
  show ?thesis by simp
qed


declare scan_once.simps [simp del] parse_array.simps [simp del] parse_object.simps [simp del]

text \<open>The constants and numbers: what \<open>scan_once\<close> tries when no string, dict or list starts.\<close>

lemma scan_once_atom:
  assumes "c \<noteq> 0x22" "c \<noteq> 0x7B" "c \<noteq> 0x5B"
  shows "scan_once (Suc n) (c # r) = scan_once (Suc m) (c # r)"
  using assms by (simp add: scan_once.simps)

lemma scan_once_atom_consumes:
  assumes "c \<noteq> 0x22" "c \<noteq> 0x7B" "c \<noteq> 0x5B"
    and "scan_once (Suc n) (c # r) = Some (v, r')"
  shows "length r' < length (c # r)"
proof -
  have len: "length (ustr ''null'') > 0" "length (ustr ''true'') > 0" "length (ustr ''false'') > 0"
    "length (ustr ''NaN'') > 0" "length (ustr ''Infinity'') > 0" "length (ustr ''-Infinity'') > 0"
    by (simp_all add: ustr_def)
  have sp: "\<And>p x. strip_prefix p (c # r) = Some x \<Longrightarrow> length p > 0 \<Longrightarrow> length x < length (c # r)"
    by (drule strip_prefix_length) simp
  from assms(4) show ?thesis
    unfolding scan_once.simps using assms(1-3)
    by (auto split: option.splits dest!: sp [OF _ len(1)] sp [OF _ len(2)] sp [OF _ len(3)]
        sp [OF _ len(4)] sp [OF _ len(5)] sp [OF _ len(6)] match_number_consumes)
qed

lemma scan_once_consumes_step:
  assumes pa: "\<And>acc cs v r. parse_array n acc cs = Some (v, r) \<Longrightarrow> length r < length cs"
    and po: "\<And>acc cs v r. parse_object n acc cs = Some (v, r) \<Longrightarrow> length r < length cs"
    and res: "scan_once (Suc n) cs = Some (v, r')"
  shows "length r' < length cs"
proof (cases cs)
  case Nil
  with res show ?thesis by (simp add: scan_once.simps)
next
  case (Cons c r)
  consider (str) "c = 0x22" | (obj) "c = 0x7B" | (arr) "c = 0x5B"
    | (atom) "c \<noteq> 0x22" "c \<noteq> 0x7B" "c \<noteq> 0x5B"
    by blast
  then show ?thesis
  proof cases
    case str
    with res Cons show ?thesis
      by (auto simp: scan_once.simps split: option.splits dest: scanstring_consumes)
  next
    case obj
    show ?thesis
    proof (cases "skip_ws r")
      case Nil
      with res Cons obj show ?thesis by (simp add: scan_once.simps)
    next
      case (Cons c' r2)
      note sk = Cons
      have l: "length r2 < length r" using sk by (rule skip_ws_Cons_length)
      show ?thesis
      proof (cases "c' = 0x7D")
        case True
        with res \<open>cs = c # r\<close> obj sk l show ?thesis by (simp add: scan_once.simps)
      next
        case False
        with res \<open>cs = c # r\<close> obj sk have "parse_object n [] (c' # r2) = Some (v, r')"
          by (simp add: scan_once.simps)
        from po [OF this] l \<open>cs = c # r\<close> show ?thesis by simp
      qed
    qed
  next
    case arr
    show ?thesis
    proof (cases "skip_ws r")
      case Nil
      with res Cons arr show ?thesis by (simp add: scan_once.simps)
    next
      case (Cons c' r2)
      note sk = Cons
      have l: "length r2 < length r" using sk by (rule skip_ws_Cons_length)
      show ?thesis
      proof (cases "c' = 0x5D")
        case True
        with res \<open>cs = c # r\<close> arr sk l show ?thesis by (simp add: scan_once.simps)
      next
        case False
        with res \<open>cs = c # r\<close> arr sk have "parse_array n [] (c' # r2) = Some (v, r')"
          by (simp add: scan_once.simps)
        from pa [OF this] l \<open>cs = c # r\<close> show ?thesis by simp
      qed
    qed
  next
    case atom
    from scan_once_atom_consumes [OF atom] res Cons show ?thesis by simp
  qed
qed


text \<open>What one round of the loops does with the results of the calls it makes.\<close>

lemma parse_array_Suc:
  "parse_array (Suc n) acc cs =
     (case scan_once n cs of
        None \<Rightarrow> None
      | Some (v, r) \<Rightarrow>
          (case skip_ws r of
             [] \<Rightarrow> None
           | c # r' \<Rightarrow>
               if c = 0x5D then Some (PyList (acc @ [v]), r')
               else if c = 0x2C then parse_array n (acc @ [v]) (skip_ws r')
               else None))"
  by (simp add: parse_array.simps)

lemma parse_array_consumes_step:
  assumes so: "\<And>cs v r. scan_once n cs = Some (v, r) \<Longrightarrow> length r < length cs"
    and pa: "\<And>acc cs v r. parse_array n acc cs = Some (v, r) \<Longrightarrow> length r < length cs"
    and res: "parse_array (Suc n) acc cs = Some (v, r')"
  shows "length r' < length cs"
proof -
  from res obtain x r where s: "scan_once n cs = Some (x, r)"
    unfolding parse_array_Suc by (auto split: option.splits)
  from res s obtain c r2 where sk: "skip_ws r = c # r2"
    unfolding parse_array_Suc by (auto split: list.splits)
  have l1: "length r < length cs" using s by (rule so)
  have l2: "length r2 < length r" using sk by (rule skip_ws_Cons_length)
  show ?thesis
  proof (cases "c = 0x5D")
    case True
    with res s sk have "r' = r2" unfolding parse_array_Suc by simp
    with l1 l2 show ?thesis by simp
  next
    case False
    with res s sk have "parse_array n (acc @ [x]) (skip_ws r2) = Some (v, r')"
      unfolding parse_array_Suc by (simp split: if_splits)
    from pa [OF this] length_skip_ws [of r2] l1 l2 show ?thesis by simp
  qed
qed

lemma parse_object_Suc:
  "parse_object (Suc n) acc (q # r0) =
     (if q \<noteq> 0x22 then None
      else
        (case scanstring r0 of
           None \<Rightarrow> None
         | Some (k, r1) \<Rightarrow>
             (case skip_ws r1 of
                [] \<Rightarrow> None
              | c # r2 \<Rightarrow>
                  if c \<noteq> 0x3A then None
                  else
                    (case scan_once n (skip_ws r2) of
                       None \<Rightarrow> None
                     | Some (v, r3) \<Rightarrow>
                         (case skip_ws r3 of
                            [] \<Rightarrow> None
                          | c' # r4 \<Rightarrow>
                              if c' = 0x7D then Some (PyDict (dict_setitem acc k v), r4)
                              else if c' = 0x2C then
                                parse_object n (dict_setitem acc k v) (skip_ws r4)
                              else None)))))"
  by (simp add: parse_object.simps)

lemma parse_object_Nil: "parse_object n acc [] = None"
  by (cases n) (simp_all add: parse_object.simps)

text \<open>The calls that a round of \<open>parse_object\<close> makes, when it gets that far.\<close>

lemma parse_object_round:
  assumes "parse_object (Suc n) acc cs = Some (v, r')"
  obtains r0 k r1 r2 x r3 c' r4 where
    "cs = 0x22 # r0" "scanstring r0 = Some (k, r1)" "skip_ws r1 = 0x3A # r2"
    "scan_once n (skip_ws r2) = Some (x, r3)" "skip_ws r3 = c' # r4"
    "c' = 0x7D \<and> r' = r4 \<or>
     c' = 0x2C \<and> parse_object n (dict_setitem acc k x) (skip_ws r4) = Some (v, r')"
proof -
  from assms obtain q r0 where cs: "cs = q # r0"
    by (cases cs) (auto simp: parse_object_Nil)
  from assms cs have q: "q = 0x22"
    unfolding cs parse_object_Suc by (simp split: if_splits)
  from assms obtain k r1 where k: "scanstring r0 = Some (k, r1)"
    unfolding cs parse_object_Suc by (auto split: if_splits option.splits)
  from assms k q obtain c r2 where s1: "skip_ws r1 = c # r2"
    unfolding cs parse_object_Suc by (auto split: list.splits)
  from assms k q s1 have c: "c = 0x3A"
    unfolding cs parse_object_Suc by (auto split: if_splits)
  from assms k q s1 c obtain x r3 where x: "scan_once n (skip_ws r2) = Some (x, r3)"
    unfolding cs parse_object_Suc by (auto split: option.splits)
  from assms k q s1 c x obtain c' r4 where s3: "skip_ws r3 = c' # r4"
    unfolding cs parse_object_Suc by (auto split: list.splits)
  from assms k q s1 c x s3 have
    "c' = 0x7D \<and> r' = r4 \<or>
     c' = 0x2C \<and> parse_object n (dict_setitem acc k x) (skip_ws r4) = Some (v, r')"
    unfolding cs parse_object_Suc by (auto split: if_splits)
  with that cs q k s1 c x s3 show thesis by blast
qed

lemma parse_object_consumes_step:
  assumes so: "\<And>cs v r. scan_once n cs = Some (v, r) \<Longrightarrow> length r < length cs"
    and po: "\<And>acc cs v r. parse_object n acc cs = Some (v, r) \<Longrightarrow> length r < length cs"
    and res: "parse_object (Suc n) acc cs = Some (v, r')"
  shows "length r' < length cs"
proof -
  from res obtain r0 k r1 r2 x r3 c' r4 where
    f: "cs = 0x22 # r0" "scanstring r0 = Some (k, r1)" "skip_ws r1 = 0x3A # r2"
    "scan_once n (skip_ws r2) = Some (x, r3)" "skip_ws r3 = c' # r4"
    "c' = 0x7D \<and> r' = r4 \<or>
     c' = 0x2C \<and> parse_object n (dict_setitem acc k x) (skip_ws r4) = Some (v, r')"
    by (rule parse_object_round)
  have l: "length r1 < length r0" "length r2 < length r1" "length r3 < length (skip_ws r2)"
    "length r4 < length r3"
    using scanstring_consumes [OF f(2)] skip_ws_Cons_length [OF f(3)] so [OF f(4)]
      skip_ws_Cons_length [OF f(5)] by simp_all
  from f(6) show ?thesis
  proof
    assume "c' = 0x7D \<and> r' = r4"
    with l length_skip_ws [of r2] f(1) show ?thesis by simp
  next
    assume "c' = 0x2C \<and> parse_object n (dict_setitem acc k x) (skip_ws r4) = Some (v, r')"
    then have "length r' < length (skip_ws r4)" using po by blast
    with l length_skip_ws [of r2] length_skip_ws [of r4] f(1) show ?thesis by simp
  qed
qed

text \<open>Every successful scan consumes at least one character.\<close>

lemma scanner_consumes:
  "(\<forall>cs v r. scan_once n cs = Some (v, r) \<longrightarrow> length r < length cs) \<and>
   (\<forall>acc cs v r. parse_array n acc cs = Some (v, r) \<longrightarrow> length r < length cs) \<and>
   (\<forall>acc cs v r. parse_object n acc cs = Some (v, r) \<longrightarrow> length r < length cs)"
proof (induction n)
  case 0
  show ?case by (simp add: scan_once.simps parse_array.simps parse_object.simps)
next
  case (Suc n)
  then have so: "\<And>cs v r. scan_once n cs = Some (v, r) \<Longrightarrow> length r < length cs"
    and pa: "\<And>acc cs v r. parse_array n acc cs = Some (v, r) \<Longrightarrow> length r < length cs"
    and po: "\<And>acc cs v r. parse_object n acc cs = Some (v, r) \<Longrightarrow> length r < length cs"
    by blast+
  show ?case
  proof (intro conjI allI impI)
    fix cs v r
    assume a: "scan_once (Suc n) cs = Some (v, r)"
    show "length r < length cs"
      by (rule scan_once_consumes_step [OF _ _ a]) (rule pa po, assumption)+
  next
    fix acc cs v r
    assume a: "parse_array (Suc n) acc cs = Some (v, r)"
    show "length r < length cs"
      by (rule parse_array_consumes_step [OF _ _ a]) (rule so pa, assumption)+
  next
    fix acc cs v r
    assume a: "parse_object (Suc n) acc cs = Some (v, r)"
    show "length r < length cs"
      by (rule parse_object_consumes_step [OF _ _ a]) (rule so po, assumption)+
  qed
qed

lemma scan_once_consumes: "scan_once n cs = Some (v, r) \<Longrightarrow> length r < length cs"
  using scanner_consumes [of n] by blast


text \<open>Beyond twice the length of the text, one more call allowed changes nothing.\<close>

lemma scan_once_fuel_step:
  assumes pa: "\<And>acc cs'. length cs' < length cs \<Longrightarrow>
                 parse_array (Suc n) acc cs' = parse_array n acc cs'"
    and po: "\<And>acc cs'. length cs' < length cs \<Longrightarrow>
                 parse_object (Suc n) acc cs' = parse_object n acc cs'"
  shows "scan_once (Suc (Suc n)) cs = scan_once (Suc n) cs"
proof (cases cs)
  case Nil
  then show ?thesis by (simp add: scan_once.simps)
next
  case (Cons c r)
  show ?thesis
  proof (cases "skip_ws r")
    case Nil
    with Cons show ?thesis by (simp add: scan_once.simps)
  next
    case sk: (Cons c' r')
    have "length (c' # r') < length cs"
      using length_skip_ws [of r] sk Cons by simp
    then have "parse_array (Suc n) [] (c' # r') = parse_array n [] (c' # r')"
      "parse_object (Suc n) [] (c' # r') = parse_object n [] (c' # r')"
      by (rule pa, rule po)
    with Cons sk show ?thesis by (simp add: scan_once.simps)
  qed
qed

lemma parse_array_fuel_step:
  assumes so: "scan_once (Suc n) cs = scan_once n cs"
    and pa: "\<And>acc cs'. length cs' + 2 \<le> length cs \<Longrightarrow>
                 parse_array (Suc n) acc cs' = parse_array n acc cs'"
  shows "parse_array (Suc (Suc n)) acc cs = parse_array (Suc n) acc cs"
proof (cases "scan_once n cs")
  case None
  with so show ?thesis by (simp add: parse_array_Suc)
next
  case (Some p)
  obtain v r where p: "p = (v, r)" by (cases p)
  have l1: "length r < length cs"
    using Some p scan_once_consumes by blast
  show ?thesis
  proof (cases "skip_ws r")
    case Nil
    with so Some p show ?thesis by (simp add: parse_array_Suc)
  next
    case (Cons c r')
    have "length (skip_ws r') + 2 \<le> length cs"
      using length_skip_ws [of r'] skip_ws_Cons_length [OF Cons] l1 by simp
    then have "parse_array (Suc n) (acc @ [v]) (skip_ws r') = parse_array n (acc @ [v]) (skip_ws r')"
      by (rule pa)
    with so Some p Cons show ?thesis by (simp add: parse_array_Suc)
  qed
qed

lemma parse_object_fuel_step:
  assumes so: "\<And>cs'. length cs' + 3 \<le> length cs \<Longrightarrow> scan_once (Suc n) cs' = scan_once n cs'"
    and po: "\<And>acc cs'. length cs' + 5 \<le> length cs \<Longrightarrow>
                 parse_object (Suc n) acc cs' = parse_object n acc cs'"
  shows "parse_object (Suc (Suc n)) acc cs = parse_object (Suc n) acc cs"
proof (cases cs)
  case Nil
  then show ?thesis by (simp add: parse_object_Nil)
next
  case (Cons q r0)
  show ?thesis
  proof (cases "scanstring r0")
    case None
    with Cons show ?thesis by (simp add: parse_object_Suc)
  next
    case (Some p)
    obtain k r1 where p: "p = (k, r1)" by (cases p)
    have l1: "length r1 < length r0"
      using Some p scanstring_consumes by blast
    show ?thesis
    proof (cases "skip_ws r1")
      case Nil
      with Cons Some p show ?thesis by (simp add: parse_object_Suc)
    next
      case s1: (Cons c r2)
      have l2: "length (skip_ws r2) + 3 \<le> length cs"
        using length_skip_ws [of r2] skip_ws_Cons_length [OF s1] l1 Cons by simp
      then have e: "scan_once (Suc n) (skip_ws r2) = scan_once n (skip_ws r2)"
        by (rule so)
      show ?thesis
      proof (cases "scan_once n (skip_ws r2)")
        case None
        with Cons Some p s1 e show ?thesis by (simp add: parse_object_Suc)
      next
        case x: (Some px)
        obtain v r3 where px: "px = (v, r3)" by (cases px)
        have l3: "length r3 < length (skip_ws r2)"
          using x px scan_once_consumes by blast
        show ?thesis
        proof (cases "skip_ws r3")
          case Nil
          with Cons Some p s1 e x px show ?thesis by (simp add: parse_object_Suc)
        next
          case s3: (Cons c' r4)
          have "length (skip_ws r4) + 5 \<le> length cs"
            using length_skip_ws [of r4] skip_ws_Cons_length [OF s3] l3 l2 by simp
          then have "parse_object (Suc n) (dict_setitem acc k v) (skip_ws r4) =
              parse_object n (dict_setitem acc k v) (skip_ws r4)"
            by (rule po)
          with Cons Some p s1 e x px s3 show ?thesis by (simp add: parse_object_Suc)
        qed
      qed
    qed
  qed
qed

lemma scanner_fuel_Suc:
  "(\<forall>cs. 2 * length cs < n \<longrightarrow> scan_once (Suc n) cs = scan_once n cs) \<and>
   (\<forall>acc cs. 2 * length cs + 1 < n \<longrightarrow> parse_array (Suc n) acc cs = parse_array n acc cs) \<and>
   (\<forall>acc cs. 2 * length cs + 1 < n \<longrightarrow> parse_object (Suc n) acc cs = parse_object n acc cs)"
proof (induction n)
  case 0
  show ?case by simp
next
  case (Suc n)
  then have so: "\<And>cs. 2 * length cs < n \<Longrightarrow> scan_once (Suc n) cs = scan_once n cs"
    and pa: "\<And>acc cs. 2 * length cs + 1 < n \<Longrightarrow> parse_array (Suc n) acc cs = parse_array n acc cs"
    and po: "\<And>acc cs. 2 * length cs + 1 < n \<Longrightarrow> parse_object (Suc n) acc cs = parse_object n acc cs"
    by blast+
  show ?case
  proof (intro conjI allI impI)
    fix cs :: pystr
    assume b: "2 * length cs < Suc n"
    show "scan_once (Suc (Suc n)) cs = scan_once (Suc n) cs"
    proof (rule scan_once_fuel_step)
      fix acc and cs' :: pystr
      assume "length cs' < length cs"
      with b have "2 * length cs' + 1 < n" by simp
      then show "parse_array (Suc n) acc cs' = parse_array n acc cs'" by (rule pa)
    next
      fix acc and cs' :: pystr
      assume "length cs' < length cs"
      with b have "2 * length cs' + 1 < n" by simp
      then show "parse_object (Suc n) acc cs' = parse_object n acc cs'" by (rule po)
    qed
  next
    fix acc and cs :: pystr
    assume b: "2 * length cs + 1 < Suc n"
    show "parse_array (Suc (Suc n)) acc cs = parse_array (Suc n) acc cs"
    proof (rule parse_array_fuel_step)
      from b show "scan_once (Suc n) cs = scan_once n cs" by (intro so) simp
    next
      fix acc and cs' :: pystr
      assume "length cs' + 2 \<le> length cs"
      with b have "2 * length cs' + 1 < n" by simp
      then show "parse_array (Suc n) acc cs' = parse_array n acc cs'" by (rule pa)
    qed
  next
    fix acc and cs :: pystr
    assume b: "2 * length cs + 1 < Suc n"
    show "parse_object (Suc (Suc n)) acc cs = parse_object (Suc n) acc cs"
    proof (rule parse_object_fuel_step)
      fix cs' :: pystr
      assume "length cs' + 3 \<le> length cs"
      with b have "2 * length cs' < n" by simp
      then show "scan_once (Suc n) cs' = scan_once n cs'" by (rule so)
    next
      fix acc and cs' :: pystr
      assume "length cs' + 5 \<le> length cs"
      with b have "2 * length cs' + 1 < n" by simp
      then show "parse_object (Suc n) acc cs' = parse_object n acc cs'" by (rule po)
    qed
  qed
qed

lemma scan_once_fuel_add: "2 * length cs < n \<Longrightarrow> scan_once (n + k) cs = scan_once n cs"
proof (induction k)
  case 0
  show ?case by simp
next
  case (Suc k)
  then have "2 * length cs < n + k" by simp
  then have "scan_once (Suc (n + k)) cs = scan_once (n + k) cs"
    using scanner_fuel_Suc [of "n + k"] by blast
  with Suc show ?case by simp
qed

text \<open>
  The bound that \<open>json_loads\<close> gives the scanner is never what makes it fail: any
  bound above twice the length of the text gives the same result.
\<close>

lemma scan_once_fuel:
  assumes "2 * length cs < n" and "2 * length cs < m"
  shows "scan_once n cs = scan_once m cs"
proof (cases "n \<le> m")
  case True
  then obtain k where "m = n + k" using le_Suc_ex by blast
  with assms(1) show ?thesis by (simp add: scan_once_fuel_add)
next
  case False
  then obtain k where "n = m + k" using le_Suc_ex [of m n] by auto
  with assms(2) show ?thesis by (simp add: scan_once_fuel_add)
qed

lemma json_loads_fuel:
  assumes "2 * length s < n"
  shows "json_loads (PyStr s) =
           (case scan_once n (skip_ws s) of
              None \<Rightarrow> Inl JSONDecodeError
            | Some (v, r) \<Rightarrow> if skip_ws r = [] then Inr v else Inl JSONDecodeError)"
proof -
  have "scan_once (2 * length s + 2) (skip_ws s) = scan_once n (skip_ws s)"
    using assms length_skip_ws [of s] by (intro scan_once_fuel) simp_all
  then show ?thesis by (simp add: json_loads_def)
qed

end
